theory Spec2Isabelle
  imports Complex_Main "HOL-Library.Multiset" "HOL-Library.Word" "HOL-Library.Product_Lexorder"
begin

unbundle bit_operations_syntax

section \<open>Floating-point numbers\<close>

text \<open>
  The program computes with Go's \<^verbatim>\<open>float64\<close>, the binary64 format of IEEE 754. A value is
  a finite number, an infinity or NaN. \<open>Finite q\<close> is the finite value that denotes the real
  number \<open>q\<close>, with \<open>Finite 0\<close> the zero whose sign bit is clear and \<open>NegZero\<close> the zero whose
  sign bit is set; \<open>Infinity s\<close> is the infinity with sign bit \<open>s\<close>. The payload of a NaN is
  not observable in the program and is left out.
\<close>

datatype float64 = Finite real | NegZero | Infinity bool | NaN

definition is_finite :: "float64 \<Rightarrow> bool" where
  "is_finite x = (case x of Finite q \<Rightarrow> True | NegZero \<Rightarrow> True | _ \<Rightarrow> False)"

definition is_zero :: "float64 \<Rightarrow> bool" where
  "is_zero x \<longleftrightarrow> x = Finite 0 \<or> x = NegZero"

definition sign_bit :: "float64 \<Rightarrow> bool" where
  "sign_bit x = (case x of Finite q \<Rightarrow> q < 0 | NegZero \<Rightarrow> True | Infinity s \<Rightarrow> s | NaN \<Rightarrow> False)"

definition fval :: "float64 \<Rightarrow> real" where
  "fval x = (case x of Finite q \<Rightarrow> q | _ \<Rightarrow> 0)"

definition magnitude :: "float64 \<Rightarrow> real" where
  "magnitude x = \<bar>fval x\<bar>"

text \<open>
  Rounding to the format, to nearest with ties to even. \<open>bit_length n\<close> is the number of
  binary digits of \<open>n\<close> and \<open>ilog2 q\<close> the exponent of a positive \<open>q\<close>, that is the \<open>e\<close> with
  \<open>2 ^ e \<le> q < 2 ^ (e + 1)\<close>. A number with exponent \<open>e\<close> is rounded to a multiple of
  \<open>2 ^ (e - 52)\<close> (53 significant bits), below the exponent \<open>- 1022\<close> of the smallest normal
  number to a multiple of \<open>2 ^ - 1074\<close> (subnormal numbers and zero); a result of
  \<open>2 ^ 1024\<close> or more is the infinity. \<open>float64_round s q\<close> is the value for the sign bit \<open>s\<close>
  and the magnitude \<open>q \<ge> 0\<close>.
\<close>

fun bit_length :: "nat \<Rightarrow> nat" where
  "bit_length n = (if n = 0 then 0 else Suc (bit_length (n div 2)))"

declare bit_length.simps [simp del]

definition ilog2 :: "real \<Rightarrow> int" where
  "ilog2 q =
     (if 1 \<le> q then int (bit_length (nat \<lfloor>q\<rfloor>)) - 1
      else - int (bit_length (nat (\<lceil>1 / q\<rceil> - 1))))"

definition pow2 :: "int \<Rightarrow> real" where
  "pow2 k = (if 0 \<le> k then 2 ^ nat k else 1 / 2 ^ nat (- k))"

definition rne :: "real \<Rightarrow> int" where
  "rne x =
     (let n = \<lfloor>x\<rfloor>; d = x - of_int n
      in if d < 1 / 2 then n else if 1 / 2 < d then n + 1 else if even n then n else n + 1)"

definition make_finite :: "bool \<Rightarrow> real \<Rightarrow> float64" where
  "make_finite s r =
     (if r = 0 then (if s then NegZero else Finite 0) else Finite (if s then - r else r))"

definition float64_round :: "bool \<Rightarrow> real \<Rightarrow> float64" where
  "float64_round s q =
     (if q = 0 then make_finite s 0
      else let e = max (ilog2 q) (- 1022); n = rne (q * pow2 (52 - e))
           in if 1023 < e \<or> (e = 1023 \<and> n = 2 ^ 53) then Infinity s
              else make_finite s (of_int n * pow2 (e - 52)))"

text \<open>
  The operations of the language on \<^verbatim>\<open>float64\<close>: \<^verbatim>\<open>x + y\<close>, \<^verbatim>\<open>x * y\<close> and \<^verbatim>\<open>x / y\<close> are the
  exact results rounded to the format, with the special cases of IEEE 754 for zeros,
  infinities and NaN.
\<close>

definition fadd :: "float64 \<Rightarrow> float64 \<Rightarrow> float64" where
  "fadd x y =
     (if x = NaN \<or> y = NaN then NaN
      else if is_finite x \<and> is_finite y then
        (let v = fval x + fval y
         in if v = 0 then make_finite (sign_bit x \<and> sign_bit y) 0
            else float64_round (v < 0) \<bar>v\<bar>)
      else if is_finite x then y
      else if is_finite y then x
      else if sign_bit x = sign_bit y then x
      else NaN)"

definition fmul :: "float64 \<Rightarrow> float64 \<Rightarrow> float64" where
  "fmul x y =
     (if x = NaN \<or> y = NaN then NaN
      else if is_finite x \<and> is_finite y then
        float64_round (sign_bit x \<noteq> sign_bit y) (magnitude x * magnitude y)
      else if is_zero x \<or> is_zero y then NaN
      else Infinity (sign_bit x \<noteq> sign_bit y))"

definition fdiv :: "float64 \<Rightarrow> float64 \<Rightarrow> float64" where
  "fdiv x y =
     (if x = NaN \<or> y = NaN then NaN
      else if is_finite x \<and> is_finite y then
        (if is_zero y then (if is_zero x then NaN else Infinity (sign_bit x \<noteq> sign_bit y))
         else float64_round (sign_bit x \<noteq> sign_bit y) (magnitude x / magnitude y))
      else if is_finite x then make_finite (sign_bit x \<noteq> sign_bit y) 0
      else if is_finite y then Infinity (sign_bit x \<noteq> sign_bit y)
      else NaN)"

text \<open>
  The comparisons \<^verbatim>\<open>x == y\<close>, \<^verbatim>\<open>x < y\<close>, \<^verbatim>\<open>x <= y\<close>, \<^verbatim>\<open>x > y\<close> and \<^verbatim>\<open>x >= y\<close>: false when an
  operand is NaN, and the two zeros are equal.
\<close>

definition feq :: "float64 \<Rightarrow> float64 \<Rightarrow> bool" where
  "feq x y =
     (if x = NaN \<or> y = NaN then False
      else if is_finite x \<and> is_finite y then fval x = fval y
      else x = y)"

definition flt :: "float64 \<Rightarrow> float64 \<Rightarrow> bool" where
  "flt x y =
     (if x = NaN \<or> y = NaN then False
      else if is_finite x \<and> is_finite y then fval x < fval y
      else if is_finite x then \<not> sign_bit y
      else if is_finite y then sign_bit x
      else sign_bit x \<and> \<not> sign_bit y)"

definition fle :: "float64 \<Rightarrow> float64 \<Rightarrow> bool" where
  "fle x y \<longleftrightarrow> flt x y \<or> feq x y"

definition fgt :: "float64 \<Rightarrow> float64 \<Rightarrow> bool" where
  "fgt x y = flt y x"

definition fge :: "float64 \<Rightarrow> float64 \<Rightarrow> bool" where
  "fge x y = fle y x"

text \<open>
  \<^verbatim>\<open>math.Round\<close> of the Go library: the nearest integer, a half rounded away from zero, with
  the sign bit of the argument; infinities and NaN are returned as they are. The result
  needs no rounding to the format: a \<^verbatim>\<open>float64\<close> of magnitude \<open>2 ^ 52\<close> or more is an integer.
\<close>

definition math_Round :: "float64 \<Rightarrow> float64" where
  "math_Round x =
     (case x of Finite q \<Rightarrow> make_finite (q < 0) (of_int \<lfloor>\<bar>q\<bar> + 1 / 2\<rfloor>) | _ \<Rightarrow> x)"

text \<open>The value of a decimal constant: the \<^verbatim>\<open>float64\<close> nearest to a real number.\<close>

definition float64_of :: "real \<Rightarrow> float64" where
  "float64_of q = float64_round (q < 0) \<bar>q\<bar>"

section \<open>Data model\<close>

text \<open>\<^verbatim>\<open>type Campaign struct\<close>: the raw data of one CSV row.\<close>

record Campaign =
  Name :: string
  Impressions :: float64
  Clicks :: float64
  Conversions :: float64
  Spend :: float64
  Revenue :: float64

text \<open>
  \<^verbatim>\<open>type Metrics struct\<close>: the computed KPIs of one campaign. Five fields carry the
  names of \<^verbatim>\<open>Campaign\<close> fields, as in the source: below, an unqualified \<open>Spend\<close> is the
  field of \<open>Metrics\<close> and \<open>Campaign.Spend\<close> the field of \<open>Campaign\<close>.
\<close>

record Metrics =
  Name :: string
  CTR :: float64
  CVR :: float64
  CPC :: float64
  CPA :: float64
  ROAS :: float64
  RevPerConv :: float64
  Spend :: float64
  Revenue :: float64
  Impressions :: float64
  Clicks :: float64
  Conversions :: float64

section \<open>Helpers\<close>

text \<open>\<^verbatim>\<open>func safe(a, b float64) float64\<close>\<close>

definition safe :: "float64 \<Rightarrow> float64 \<Rightarrow> float64" where
  "safe a b = (if feq b (Finite 0) then Finite 0 else fdiv a b)"

text \<open>\<^verbatim>\<open>func round2(v float64) float64\<close>\<close>

definition round2 :: "float64 \<Rightarrow> float64" where
  "round2 v = fdiv (math_Round (fmul v (Finite 100))) (Finite 100)"

text \<open>\<^verbatim>\<open>func computeMetrics(c Campaign) Metrics\<close>\<close>

definition computeMetrics :: "Campaign \<Rightarrow> Metrics" where
  "computeMetrics c =
     \<lparr> Name = Campaign.Name c,
       CTR = round2 (fmul (safe (Campaign.Clicks c) (Campaign.Impressions c)) (Finite 100)),
       CVR = round2 (fmul (safe (Campaign.Conversions c) (Campaign.Clicks c)) (Finite 100)),
       CPC = round2 (safe (Campaign.Spend c) (Campaign.Clicks c)),
       CPA = round2 (safe (Campaign.Spend c) (Campaign.Conversions c)),
       ROAS = round2 (safe (Campaign.Revenue c) (Campaign.Spend c)),
       RevPerConv = round2 (safe (Campaign.Revenue c) (Campaign.Conversions c)),
       Spend = Campaign.Spend c,
       Revenue = Campaign.Revenue c,
       Impressions = Campaign.Impressions c,
       Clicks = Campaign.Clicks c,
       Conversions = Campaign.Conversions c \<rparr>"

section \<open>Aggregates\<close>

text \<open>
  \<^verbatim>\<open>func totalMetrics(all []Metrics) Metrics\<close>: \<open>total_zero\<close> is the zero value of
  \<^verbatim>\<open>var t Campaign\<close> after \<^verbatim>\<open>t.Name = "TOTAL"\<close>, \<open>total_step\<close> the body of the loop.
\<close>

definition total_zero :: Campaign where
  "total_zero =
     \<lparr> Campaign.Name = ''TOTAL'', Campaign.Impressions = Finite 0, Campaign.Clicks = Finite 0,
       Campaign.Conversions = Finite 0, Campaign.Spend = Finite 0,
       Campaign.Revenue = Finite 0 \<rparr>"

definition total_step :: "Campaign \<Rightarrow> Metrics \<Rightarrow> Campaign" where
  "total_step t m =
     t \<lparr> Campaign.Impressions := fadd (Campaign.Impressions t) (Impressions m),
         Campaign.Clicks := fadd (Campaign.Clicks t) (Clicks m),
         Campaign.Conversions := fadd (Campaign.Conversions t) (Conversions m),
         Campaign.Spend := fadd (Campaign.Spend t) (Spend m),
         Campaign.Revenue := fadd (Campaign.Revenue t) (Revenue m) \<rparr>"

definition totalMetrics :: "Metrics list \<Rightarrow> Metrics" where
  "totalMetrics all = computeMetrics (foldl total_step total_zero all)"

section \<open>Filtering\<close>

text \<open>
  The loop of \<^verbatim>\<open>main\<close> that computes the metrics of every campaign and appends to
  \<^verbatim>\<open>all\<close> those with \<^verbatim>\<open>m.ROAS >= *minROAS\<close>. The third argument is \<^verbatim>\<open>all\<close> so far.
\<close>

fun filter_loop :: "float64 \<Rightarrow> Campaign list \<Rightarrow> Metrics list \<Rightarrow> Metrics list" where
  "filter_loop minROAS [] all = all"
| "filter_loop minROAS (c # cs) all =
     (let m = computeMetrics c
      in if fge (ROAS m) minROAS then filter_loop minROAS cs (all @ [m])
         else filter_loop minROAS cs all)"

section \<open>CSV parsing\<close>

text \<open>
  Library functions on strings, on the ASCII range: \<^verbatim>\<open>strings.ToLower\<close> maps A-Z to a-z,
  \<^verbatim>\<open>strings.TrimSpace\<close> strips space, tab, line feed, vertical tab, form feed and carriage
  return (the library also lower-cases and strips characters beyond ASCII, which are
  several bytes of a \<open>string\<close> here and stay as they are).
\<close>

definition lower_char :: "char \<Rightarrow> char" where
  "lower_char c =
     (case map_of (zip ''ABCDEFGHIJKLMNOPQRSTUVWXYZ'' ''abcdefghijklmnopqrstuvwxyz'') c of
        None \<Rightarrow> c
      | Some l \<Rightarrow> l)"

definition strings_ToLower :: "string \<Rightarrow> string" where
  "strings_ToLower s = map lower_char s"

definition is_space :: "char \<Rightarrow> bool" where
  "is_space c \<longleftrightarrow> c \<in> set [CHR '' '', CHR 0x09, CHR 0x0A, CHR 0x0B, CHR 0x0C, CHR 0x0D]"

definition strings_TrimSpace :: "string \<Rightarrow> string" where
  "strings_TrimSpace s = rev (dropWhile is_space (rev (dropWhile is_space s)))"

text \<open>
  \<^verbatim>\<open>strconv.ParseFloat(s, 64)\<close> of the Go library, in the functions of its source. \<open>None\<close> is
  an error, of syntax or of range.

  \<^verbatim>\<open>special\<close> reads the words for the infinities (\<^verbatim>\<open>inf\<close>, \<^verbatim>\<open>infinity\<close>, with an optional
  sign) and for NaN (\<^verbatim>\<open>nan\<close>, unsigned), in any case, and returns the value and the number
  of characters read.
\<close>

fun commonPrefixLenIgnoreCase :: "string \<Rightarrow> string \<Rightarrow> nat" where
  "commonPrefixLenIgnoreCase (c # s) (p # prefix) =
     (if lower_char c = p then Suc (commonPrefixLenIgnoreCase s prefix) else 0)"
| "commonPrefixLenIgnoreCase s prefix = 0"

definition special_inf :: "bool \<Rightarrow> nat \<Rightarrow> string \<Rightarrow> (float64 \<times> nat) option" where
  "special_inf neg nsign s =
     (let n = commonPrefixLenIgnoreCase s ''infinity'';
          n = (if 3 < n \<and> n < 8 then 3 else n)
      in if n = 3 \<or> n = 8 then Some (Infinity neg, nsign + n) else None)"

definition special :: "string \<Rightarrow> (float64 \<times> nat) option" where
  "special s =
     (case s of
        [] \<Rightarrow> None
      | c # cs \<Rightarrow>
          if c = CHR ''+'' \<or> c = CHR ''-'' then special_inf (c = CHR ''-'') 1 cs
          else if c = CHR ''i'' \<or> c = CHR ''I'' then special_inf False 0 s
          else if c = CHR ''n'' \<or> c = CHR ''N'' then
            (if commonPrefixLenIgnoreCase s ''nan'' = 3 then Some (NaN, 3) else None)
          else None)"

text \<open>
  \<^verbatim>\<open>readFloat\<close> reads a decimal or hexadecimal number: an optional sign, an optional prefix
  \<^verbatim>\<open>0x\<close>, digits with an optional point and underscores (\<open>mantissa_loop\<close>), and an exponent
  (\<open>exponent_loop\<close>; after \<^verbatim>\<open>e\<close> for a power of ten, after \<^verbatim>\<open>p\<close> for a power of two, which
  a hexadecimal number must have). It returns the sign, the base, the digits as a natural
  number, the exponent of the last digit, whether an underscore was read, and the
  characters left. The library keeps the first 19 digits and a flag for the others, and
  reads the number again with up to 800 digits when it needs them to round; here all
  the digits are kept. In the loops, \<open>nd\<close> counts the digits from the first that is not
  a leading zero and \<open>dp\<close> is the position of the point among them; an exponent that has
  reached 10000 takes no further digit.
\<close>

definition is_digit :: "char \<Rightarrow> bool" where
  "is_digit c \<longleftrightarrow> c \<in> set ''0123456789''"

definition digit_val :: "char \<Rightarrow> nat" where
  "digit_val c =
     (case map_of (zip ''0123456789'' [0, 1, 2, 3, 4, 5, 6, 7, 8, 9]) c of
        None \<Rightarrow> 0
      | Some d \<Rightarrow> d)"

definition is_hex_letter :: "char \<Rightarrow> bool" where
  "is_hex_letter c \<longleftrightarrow> c \<in> set ''abcdefABCDEF''"

definition hex_letter_val :: "char \<Rightarrow> nat" where
  "hex_letter_val c =
     (case map_of (zip ''abcdefABCDEF'' [10, 11, 12, 13, 14, 15, 10, 11, 12, 13, 14, 15]) c of
        None \<Rightarrow> 0
      | Some d \<Rightarrow> d)"

fun read_sign :: "string \<Rightarrow> bool \<times> string" where
  "read_sign (c # cs) =
     (if c = CHR ''+'' then (False, cs)
      else if c = CHR ''-'' then (True, cs)
      else (False, c # cs))"
| "read_sign [] = (False, [])"

fun mantissa_loop ::
  "bool \<Rightarrow> string \<Rightarrow> bool \<Rightarrow> bool \<Rightarrow> nat \<Rightarrow> int \<Rightarrow> nat \<Rightarrow> bool
     \<Rightarrow> (bool \<times> bool \<times> nat \<times> int \<times> nat \<times> bool) \<times> string" where
  "mantissa_loop hex [] sawdot sawdigits nd dp mantissa underscores =
     ((sawdot, sawdigits, nd, dp, mantissa, underscores), [])"
| "mantissa_loop hex (c # s) sawdot sawdigits nd dp mantissa underscores =
     (if c = CHR ''_'' then mantissa_loop hex s sawdot sawdigits nd dp mantissa True
      else if c = CHR ''.'' then
        (if sawdot then ((sawdot, sawdigits, nd, dp, mantissa, underscores), c # s)
         else mantissa_loop hex s True sawdigits nd (int nd) mantissa underscores)
      else if is_digit c then
        (if c = CHR ''0'' \<and> nd = 0 then
           mantissa_loop hex s sawdot True nd (dp - 1) mantissa underscores
         else
           mantissa_loop hex s sawdot True (nd + 1) dp
             ((if hex then 16 else 10) * mantissa + digit_val c) underscores)
      else if hex \<and> is_hex_letter c then
        mantissa_loop hex s sawdot True (nd + 1) dp (16 * mantissa + hex_letter_val c)
          underscores
      else ((sawdot, sawdigits, nd, dp, mantissa, underscores), c # s))"

fun exponent_loop :: "string \<Rightarrow> nat \<Rightarrow> bool \<Rightarrow> (nat \<times> bool) \<times> string" where
  "exponent_loop [] e underscores = ((e, underscores), [])"
| "exponent_loop (c # s) e underscores =
     (if c = CHR ''_'' then exponent_loop s e True
      else if is_digit c then
        exponent_loop s (if e < 10000 then e * 10 + digit_val c else e) underscores
      else ((e, underscores), c # s))"

definition is_exp_char :: "bool \<Rightarrow> char \<Rightarrow> bool" where
  "is_exp_char hex c \<longleftrightarrow> (if hex then c = CHR ''p'' \<or> c = CHR ''P'' else c = CHR ''e'' \<or> c = CHR ''E'')"

definition readFloat :: "string \<Rightarrow> (bool \<times> bool \<times> nat \<times> int \<times> bool \<times> string) option" where
  "readFloat s =
     (let (neg, s1) = read_sign s;
          hex = (2 < length s1 \<and> s1 ! 0 = CHR ''0'' \<and> (s1 ! 1 = CHR ''x'' \<or> s1 ! 1 = CHR ''X''));
          ((sawdot, sawdigits, nd, dp0, mantissa, underscores), s2) =
            mantissa_loop hex (if hex then drop 2 s1 else s1) False False 0 0 0 False;
          dp1 = (if sawdot then dp0 else int nd);
          dp = (if hex then 4 * dp1 else dp1);
          ndMant = (if hex then 4 * int nd else int nd)
      in if \<not> sawdigits then None
         else if s2 \<noteq> [] \<and> is_exp_char hex (hd s2) then
           (let (eneg, s3) = read_sign (tl s2)
            in if s3 = [] \<or> \<not> is_digit (hd s3) then None
               else
                 (let ((e, underscores1), s4) = exponent_loop s3 0 underscores;
                      dp2 = dp + (if eneg then - int e else int e)
                  in Some (neg, hex, mantissa, (if mantissa \<noteq> 0 then dp2 - ndMant else 0),
                       underscores1, s4)))
         else if hex then None
         else Some (neg, hex, mantissa, (if mantissa \<noteq> 0 then dp - ndMant else 0),
                underscores, s2))"

text \<open>
  \<^verbatim>\<open>underscoreOK\<close>: an underscore must stand between two digits, or between a base prefix
  and a digit.
\<close>

datatype saw = SawStart | SawDigit | SawUnderscore | SawOther

fun underscore_loop :: "bool \<Rightarrow> saw \<Rightarrow> string \<Rightarrow> bool" where
  "underscore_loop hex saw [] = (saw \<noteq> SawUnderscore)"
| "underscore_loop hex saw (c # s) =
     (if is_digit c \<or> (hex \<and> is_hex_letter c) then underscore_loop hex SawDigit s
      else if c = CHR ''_'' then
        (if saw \<noteq> SawDigit then False else underscore_loop hex SawUnderscore s)
      else if saw = SawUnderscore then False
      else underscore_loop hex SawOther s)"

definition underscoreOK :: "string \<Rightarrow> bool" where
  "underscoreOK s =
     (let s1 = (if s \<noteq> [] \<and> (hd s = CHR ''-'' \<or> hd s = CHR ''+'') then tl s else s);
          prefix = (2 \<le> length s1 \<and> s1 ! 0 = CHR ''0'' \<and> s1 ! 1 \<in> set ''bBoOxX'');
          hex = (prefix \<and> (s1 ! 1 = CHR ''x'' \<or> s1 ! 1 = CHR ''X''))
      in underscore_loop hex (if prefix then SawDigit else SawStart)
           (if prefix then drop 2 s1 else s1))"

text \<open>
  \<^verbatim>\<open>ParseFloat\<close>: the whole string must be read. The value is the number read, rounded to
  the format; a number that rounds to an infinity is a range error.
\<close>

definition pow10 :: "int \<Rightarrow> real" where
  "pow10 k = (if 0 \<le> k then 10 ^ nat k else 1 / 10 ^ nat (- k))"

definition strconv_ParseFloat :: "string \<Rightarrow> float64 option" where
  "strconv_ParseFloat s =
     (case special s of
        Some (v, n) \<Rightarrow> if n = length s then Some v else None
      | None \<Rightarrow>
          (case readFloat s of
             None \<Rightarrow> None
           | Some (neg, hex, mantissa, exponent, underscores, rest) \<Rightarrow>
               if rest \<noteq> [] \<or> (underscores \<and> \<not> underscoreOK s) then None
               else
                 (let v = float64_round neg
                            (of_nat mantissa * (if hex then pow2 exponent else pow10 exponent))
                  in if is_finite v then Some v else None)))"

text \<open>\<^verbatim>\<open>func parseFloat(s string) (float64, error)\<close>: commas removed, then trimmed.\<close>

definition parseFloat :: "string \<Rightarrow> float64 option" where
  "parseFloat s = strconv_ParseFloat (strings_TrimSpace (filter (\<lambda>c. c \<noteq> CHR '','') s))"

text \<open>
  What \<^verbatim>\<open>loadCSV\<close> reads: the file cannot be opened, or \<^verbatim>\<open>csv.Reader.ReadAll\<close> fails, or it
  returns the records of the file. The errors of \<^verbatim>\<open>loadCSV\<close>, in the order of the source;
  \<open>IndexOutOfRange\<close> is the run-time panic of \<^verbatim>\<open>row[header[col]]\<close> on a row that is too
  short.
\<close>

datatype csv_source = OpenFails | ReadAllFails | Rows "string list list"

datatype load_error =
    CannotOpenFile
  | CSVParseError
  | NoDataRow
  | MissingRequiredColumn string
  | RowColumnError nat string
  | IndexOutOfRange

definition requiredCols :: "string list" where
  "requiredCols =
     [''campaign_name'', ''impressions'', ''clicks'', ''conversions'', ''spend'', ''revenue'']"

text \<open>The loop that builds the column index: a later column of the same name wins.\<close>

fun header_loop :: "string list \<Rightarrow> nat \<Rightarrow> (string \<rightharpoonup> nat) \<Rightarrow> (string \<rightharpoonup> nat)" where
  "header_loop [] i header = header"
| "header_loop (h # hs) i header =
     header_loop hs (i + 1) (header(strings_ToLower (strings_TrimSpace h) \<mapsto> i))"

text \<open>The loop over \<^verbatim>\<open>requiredCols\<close>: the first required column that the header lacks.\<close>

fun missing_col :: "(string \<rightharpoonup> nat) \<Rightarrow> string list \<Rightarrow> string option" where
  "missing_col header [] = None"
| "missing_col header (col # cols) =
     (if header col = None then Some col else missing_col header cols)"

text \<open>\<^verbatim>\<open>header[col]\<close> (0 for an absent key) and \<^verbatim>\<open>row[k]\<close>.\<close>

definition lookup :: "(string \<rightharpoonup> nat) \<Rightarrow> string \<Rightarrow> nat" where
  "lookup header col = (case header col of None \<Rightarrow> 0 | Some k \<Rightarrow> k)"

definition index :: "string list \<Rightarrow> nat \<Rightarrow> load_error + string" where
  "index row k = (if k < length row then Inr (row ! k) else Inl IndexOutOfRange)"

text \<open>The closure \<^verbatim>\<open>parse\<close> of the row loop; \<open>i\<close> is the index of the row in \<^verbatim>\<open>rows[1:]\<close>.\<close>

definition parse :: "(string \<rightharpoonup> nat) \<Rightarrow> nat \<Rightarrow> string list \<Rightarrow> string \<Rightarrow> load_error + float64" where
  "parse header i row col =
     (case index row (lookup header col) of
        Inl e \<Rightarrow> Inl e
      | Inr s \<Rightarrow>
          (case parseFloat s of
             None \<Rightarrow> Inl (RowColumnError (i + 2) col)
           | Some v \<Rightarrow> Inr v))"

text \<open>The body of the row loop for a row that is not empty.\<close>

definition read_row :: "(string \<rightharpoonup> nat) \<Rightarrow> nat \<Rightarrow> string list \<Rightarrow> load_error + Campaign" where
  "read_row header i row =
     (case parse header i row ''impressions'' of Inl e \<Rightarrow> Inl e | Inr imp \<Rightarrow>
      case parse header i row ''clicks'' of Inl e \<Rightarrow> Inl e | Inr clk \<Rightarrow>
      case parse header i row ''conversions'' of Inl e \<Rightarrow> Inl e | Inr conv \<Rightarrow>
      case parse header i row ''spend'' of Inl e \<Rightarrow> Inl e | Inr spend \<Rightarrow>
      case parse header i row ''revenue'' of Inl e \<Rightarrow> Inl e | Inr revenue \<Rightarrow>
      case index row (lookup header ''campaign_name'') of Inl e \<Rightarrow> Inl e | Inr name \<Rightarrow>
        Inr \<lparr> Campaign.Name = strings_TrimSpace name,
              Campaign.Impressions = imp,
              Campaign.Clicks = clk,
              Campaign.Conversions = conv,
              Campaign.Spend = spend,
              Campaign.Revenue = revenue \<rparr>)"

fun rows_loop ::
  "(string \<rightharpoonup> nat) \<Rightarrow> nat \<Rightarrow> string list list \<Rightarrow> Campaign list \<Rightarrow> load_error + Campaign list" where
  "rows_loop header i [] campaigns = Inr campaigns"
| "rows_loop header i (row # rest) campaigns =
     (if length row = 0 then rows_loop header (i + 1) rest campaigns
      else case read_row header i row of
             Inl e \<Rightarrow> Inl e
           | Inr c \<Rightarrow> rows_loop header (i + 1) rest (campaigns @ [c]))"

text \<open>\<^verbatim>\<open>func loadCSV(path string) ([]Campaign, error)\<close>, from what the file gives.\<close>

definition loadCSV :: "csv_source \<Rightarrow> load_error + Campaign list" where
  "loadCSV src =
     (case src of
        OpenFails \<Rightarrow> Inl CannotOpenFile
      | ReadAllFails \<Rightarrow> Inl CSVParseError
      | Rows rows \<Rightarrow>
          if length rows < 2 then Inl NoDataRow
          else
            (let header = header_loop (rows ! 0) 0 Map.empty
             in case missing_col header requiredCols of
                  Some col \<Rightarrow> Inl (MissingRequiredColumn col)
                | None \<Rightarrow> rows_loop header 0 (drop 1 rows) []))"

section \<open>Sorting\<close>

text \<open>
  \<^verbatim>\<open>sort.Slice(x, less)\<close> of the Go library (Go 1.19 and later, the pattern-defeating
  quicksort of \<^verbatim>\<open>zsortfunc.go\<close>), on a list for the slice. \<open>lt\<close> compares two elements;
  the closure \<^verbatim>\<open>less(i, j)\<close> of the caller reads the slice being sorted, so it is
  \<open>Less lt data i j\<close>, and \<^verbatim>\<open>data.Swap(i, j)\<close> is \<open>Swap data i j\<close>. Indices are natural
  numbers: the library's loops never take an index below 0 or beyond the slice.
\<close>

definition Less :: "('a \<Rightarrow> 'a \<Rightarrow> bool) \<Rightarrow> 'a list \<Rightarrow> nat \<Rightarrow> nat \<Rightarrow> bool" where
  "Less lt data i j = lt (data ! i) (data ! j)"

definition Swap :: "'a list \<Rightarrow> nat \<Rightarrow> nat \<Rightarrow> 'a list" where
  "Swap data i j = data[i := data ! j, j := data ! i]"

text \<open>\<^verbatim>\<open>insertionSort_func\<close>: the inner loop moves \<^verbatim>\<open>data[j]\<close> down while it is less than its left neighbour.\<close>

fun insertion_inner :: "('a \<Rightarrow> 'a \<Rightarrow> bool) \<Rightarrow> 'a list \<Rightarrow> nat \<Rightarrow> nat \<Rightarrow> 'a list" where
  "insertion_inner lt data a j =
     (if j > a \<and> Less lt data j (j - 1)
      then insertion_inner lt (Swap data j (j - 1)) a (j - 1)
      else data)"

declare insertion_inner.simps [simp del]

definition insertionSort_func :: "('a \<Rightarrow> 'a \<Rightarrow> bool) \<Rightarrow> 'a list \<Rightarrow> nat \<Rightarrow> nat \<Rightarrow> 'a list" where
  "insertionSort_func lt data a b =
     foldl (\<lambda>data i. insertion_inner lt data a i) data [a + 1..<b]"

text \<open>\<^verbatim>\<open>siftDown_func\<close> and \<^verbatim>\<open>heapSort_func\<close>; both loops of the latter count down to 0.\<close>

function siftDown_func :: "('a \<Rightarrow> 'a \<Rightarrow> bool) \<Rightarrow> 'a list \<Rightarrow> nat \<Rightarrow> nat \<Rightarrow> nat \<Rightarrow> 'a list" where
  "siftDown_func lt data root' hi first =
     (let child = 2 * root' + 1
      in if child \<ge> hi then data
         else
           (let child = (if child + 1 < hi \<and> Less lt data (first + child) (first + child + 1)
                         then child + 1 else child)
            in if \<not> Less lt data (first + root') (first + child) then data
               else siftDown_func lt (Swap data (first + root') (first + child)) child hi first))"
  by pat_completeness auto
termination
  by (relation "measure (\<lambda>(lt, data, root', hi, first). hi - root')") auto

declare siftDown_func.simps [simp del]

definition heapSort_func :: "('a \<Rightarrow> 'a \<Rightarrow> bool) \<Rightarrow> 'a list \<Rightarrow> nat \<Rightarrow> nat \<Rightarrow> 'a list" where
  "heapSort_func lt data a b =
     (let first = a; lo = 0; hi = b - a;
          data = foldl (\<lambda>data i. siftDown_func lt data i hi first) data
                   (rev [0..<(hi - 1) div 2 + 1])
      in foldl (\<lambda>data i. siftDown_func lt (Swap data first (first + i)) lo i first) data
           (rev [0..<hi]))"

text \<open>
  \<^verbatim>\<open>breakPatterns_func\<close> with its generator \<^verbatim>\<open>xorshift\<close> on \<^verbatim>\<open>uint64\<close>, \<^verbatim>\<open>bits.Len\<close> and
  \<^verbatim>\<open>nextPowerOfTwo\<close>.
\<close>

definition xorshift_Next :: "64 word \<Rightarrow> 64 word" where
  "xorshift_Next r =
     (let r = r XOR push_bit 13 r;
          r = r XOR drop_bit 7 r;
          r = r XOR push_bit 17 r
      in r)"

fun bits_Len :: "nat \<Rightarrow> nat" where
  "bits_Len n = (if n = 0 then 0 else Suc (bits_Len (n div 2)))"

declare bits_Len.simps [simp del]

definition nextPowerOfTwo :: "nat \<Rightarrow> 64 word" where
  "nextPowerOfTwo len = push_bit (bits_Len len) 1"

fun breakPatterns_loop :: "'a list \<Rightarrow> nat \<Rightarrow> nat \<Rightarrow> 64 word \<Rightarrow> 64 word \<Rightarrow> nat \<Rightarrow> nat list \<Rightarrow> 'a list" where
  "breakPatterns_loop data a len random modulus idx [] = data"
| "breakPatterns_loop data a len random modulus idx (i # is) =
     (let random = xorshift_Next random;
          other = unat (random AND (modulus - 1));
          other = (if other \<ge> len then other - len else other)
      in breakPatterns_loop (Swap data (idx - 1 + i) (a + other)) a len random modulus idx is)"

definition breakPatterns_func :: "'a list \<Rightarrow> nat \<Rightarrow> nat \<Rightarrow> 'a list" where
  "breakPatterns_func data a b =
     (let len = b - a
      in if len \<ge> 8 then
           (let random = of_nat len;
                modulus = nextPowerOfTwo len;
                idx = a + (len div 4) * 2 - 1
            in breakPatterns_loop data a len random modulus idx [0, 1, 2])
         else data)"

text \<open>\<^verbatim>\<open>choosePivot_func\<close> with \<^verbatim>\<open>order2_func\<close>, \<^verbatim>\<open>median_func\<close> and \<^verbatim>\<open>medianAdjacent_func\<close>; \<^verbatim>\<open>swaps\<close> is threaded through.\<close>

datatype sortedHint = unknownHint | increasingHint | decreasingHint

definition order2_func :: "('a \<Rightarrow> 'a \<Rightarrow> bool) \<Rightarrow> 'a list \<Rightarrow> nat \<Rightarrow> nat \<Rightarrow> nat \<Rightarrow> nat \<times> nat \<times> nat" where
  "order2_func lt data a b swaps =
     (if Less lt data b a then (b, a, swaps + 1) else (a, b, swaps))"

definition median_func :: "('a \<Rightarrow> 'a \<Rightarrow> bool) \<Rightarrow> 'a list \<Rightarrow> nat \<Rightarrow> nat \<Rightarrow> nat \<Rightarrow> nat \<Rightarrow> nat \<times> nat" where
  "median_func lt data a b c swaps =
     (let (a, b, swaps) = order2_func lt data a b swaps;
          (b, c, swaps) = order2_func lt data b c swaps;
          (a, b, swaps) = order2_func lt data a b swaps
      in (b, swaps))"

definition medianAdjacent_func :: "('a \<Rightarrow> 'a \<Rightarrow> bool) \<Rightarrow> 'a list \<Rightarrow> nat \<Rightarrow> nat \<Rightarrow> nat \<times> nat" where
  "medianAdjacent_func lt data a swaps = median_func lt data (a - 1) a (a + 1) swaps"

definition choosePivot_func :: "('a \<Rightarrow> 'a \<Rightarrow> bool) \<Rightarrow> 'a list \<Rightarrow> nat \<Rightarrow> nat \<Rightarrow> nat \<times> sortedHint" where
  "choosePivot_func lt data a b =
     (let shortestNinther = 50; maxSwaps = 4 * 3;
          l = b - a;
          swaps = 0;
          i = a + l div 4 * 1;
          j = a + l div 4 * 2;
          k = a + l div 4 * 3;
          (j, swaps) =
            (if l \<ge> 8 then
               (let (i, j, k, swaps) =
                      (if l \<ge> shortestNinther then
                         (let (i, swaps) = medianAdjacent_func lt data i swaps;
                              (j, swaps) = medianAdjacent_func lt data j swaps;
                              (k, swaps) = medianAdjacent_func lt data k swaps
                          in (i, j, k, swaps))
                       else (i, j, k, swaps))
                in median_func lt data i j k swaps)
             else (j, swaps))
      in if swaps = 0 then (j, increasingHint)
         else if swaps = maxSwaps then (j, decreasingHint)
         else (j, unknownHint))"

text \<open>\<^verbatim>\<open>reverseRange_func\<close>\<close>

function reverseRange_loop :: "'a list \<Rightarrow> nat \<Rightarrow> nat \<Rightarrow> 'a list" where
  "reverseRange_loop data i j =
     (if i < j then reverseRange_loop (Swap data i j) (i + 1) (j - 1) else data)"
  by pat_completeness auto
termination
  by (relation "measure (\<lambda>(data, i, j). j - i)") auto

declare reverseRange_loop.simps [simp del]

definition reverseRange_func :: "'a list \<Rightarrow> nat \<Rightarrow> nat \<Rightarrow> 'a list" where
  "reverseRange_func data a b = reverseRange_loop data a (b - 1)"

text \<open>
  The two inner loops of the partition functions:
  \<^verbatim>\<open>for i <= j && cond(i) { i++ }\<close> and \<^verbatim>\<open>for i <= j && cond(j) { j-- }\<close>. In the library
  \<open>i\<close> is above \<open>a\<close>, so \<open>j\<close> is not 0 when it is decremented.
\<close>

function scan_up :: "(nat \<Rightarrow> bool) \<Rightarrow> nat \<Rightarrow> nat \<Rightarrow> nat" where
  "scan_up cond i j = (if i \<le> j \<and> cond i then scan_up cond (i + 1) j else i)"
  by pat_completeness auto
termination
  by (relation "measure (\<lambda>(cond, i, j). j + 1 - i)") auto

declare scan_up.simps [simp del]

fun scan_down :: "(nat \<Rightarrow> bool) \<Rightarrow> nat \<Rightarrow> nat \<Rightarrow> nat" where
  "scan_down cond i j =
     (if i \<le> j \<and> cond j then (if j = 0 then 0 else scan_down cond i (j - 1)) else j)"

declare scan_down.simps [simp del]

lemma scan_up_ge: "i \<le> scan_up cond i j"
proof (induction cond i j rule: scan_up.induct)
  case (1 cond i j)
  then show ?case
    by (subst scan_up.simps) (auto simp: Suc_leD)
qed

lemma scan_up_le: "i \<le> Suc j \<Longrightarrow> scan_up cond i j \<le> Suc j"
proof (induction cond i j rule: scan_up.induct)
  case (1 cond i j)
  then show ?case
    by (subst scan_up.simps) auto
qed

lemma scan_up_stop: "scan_up cond i j \<le> j \<Longrightarrow> \<not> cond (scan_up cond i j)"
proof (induction cond i j rule: scan_up.induct)
  case (1 cond i j)
  show ?case
  proof (cases "i \<le> j \<and> cond i")
    case True
    then have "scan_up cond i j = scan_up cond (i + 1) j"
      by (subst scan_up.simps) simp
    then show ?thesis using "1.IH" [OF True] "1.prems" by simp
  next
    case False
    then have "scan_up cond i j = i"
      by (subst scan_up.simps) auto
    then show ?thesis using False "1.prems" by simp
  qed
qed

lemma scan_down_le: "scan_down cond i j \<le> j"
proof (induction cond i j rule: scan_down.induct)
  case (1 cond i j)
  then show ?case
    by (subst scan_down.simps) (auto simp: le_diff_conv)
qed

lemma scan_down_ge: "i \<le> Suc j \<Longrightarrow> i \<le> Suc (scan_down cond i j)"
proof (induction cond i j rule: scan_down.induct)
  case (1 cond i j)
  then show ?case
    by (subst scan_down.simps) auto
qed

lemma scan_down_stop: "0 < i \<Longrightarrow> i \<le> scan_down cond i j \<Longrightarrow> \<not> cond (scan_down cond i j)"
proof (induction cond i j rule: scan_down.induct)
  case (1 cond i j)
  show ?case
  proof (cases "i \<le> j \<and> cond j")
    case True
    then have "j \<noteq> 0" using "1.prems" by simp
    then have "scan_down cond i j = scan_down cond i (j - 1)"
      using True by (subst scan_down.simps) simp
    then show ?thesis using "1.IH" [OF True \<open>j \<noteq> 0\<close>] "1.prems" by simp
  next
    case False
    then have "scan_down cond i j = j"
      by (subst scan_down.simps) auto
    then show ?thesis using False "1.prems" by simp
  qed
qed

text \<open>The two scans of a partition step stop at different positions.\<close>

lemma scans_cross:
  assumes "0 < i" and "i \<le> Suc j"
    and "i1 = scan_up cond i j" and "j1 = scan_down (\<lambda>k. \<not> cond k) i1 j"
    and "\<not> j1 < i1"
  shows "i1 < j1 \<and> i \<le> i1 \<and> j1 \<le> j"
proof -
  have "i \<le> i1" by (simp add: assms(3) scan_up_ge)
  have "j1 \<le> j" by (simp add: assms(4) scan_down_le)
  have "i1 \<le> j1" using assms(5) by simp
  then have "i1 \<le> j" using \<open>j1 \<le> j\<close> by simp
  then have "\<not> cond i1" using scan_up_stop [of cond i j] assms(3) by simp
  moreover have "0 < i1" using assms(1) \<open>i \<le> i1\<close> by simp
  then have "cond j1"
    using scan_down_stop [of i1 "\<lambda>k. \<not> cond k" j] \<open>i1 \<le> j1\<close> assms(4) by simp
  ultimately have "i1 \<noteq> j1" by auto
  then show ?thesis using \<open>i1 \<le> j1\<close> \<open>i \<le> i1\<close> \<open>j1 \<le> j\<close> by simp
qed

text \<open>\<^verbatim>\<open>partition_func\<close>: \<open>partition_loop\<close> is its \<^verbatim>\<open>for { ... }\<close> loop.\<close>

function partition_loop ::
  "('a \<Rightarrow> 'a \<Rightarrow> bool) \<Rightarrow> 'a list \<Rightarrow> nat \<Rightarrow> nat \<Rightarrow> nat \<Rightarrow> 'a list \<times> nat" where
  "partition_loop lt data a i j =
     (let i = scan_up (\<lambda>i. Less lt data i a) i j;
          j = scan_down (\<lambda>j. \<not> Less lt data j a) i j
      in if i > j then (data, j)
         else partition_loop lt (Swap data i j) a (i + 1) (j - 1))"
  by pat_completeness auto
termination
proof (relation "measure (\<lambda>(lt, data, a, i, j). j + 1 - i)", goal_cases)
  case 1
  then show ?case by simp
next
  case (2 lt data a i j i' j')
  have "i \<le> i'" using 2 by (simp add: scan_up_ge)
  moreover have "j' \<le> j" using 2 by (simp add: scan_down_le)
  ultimately show ?case using 2(3) by simp
qed

declare partition_loop.simps [simp del]

definition partition_func ::
  "('a \<Rightarrow> 'a \<Rightarrow> bool) \<Rightarrow> 'a list \<Rightarrow> nat \<Rightarrow> nat \<Rightarrow> nat \<Rightarrow> 'a list \<times> nat \<times> bool" where
  "partition_func lt data a b pivot =
     (let data = Swap data a pivot;
          i = a + 1; j = b - 1;
          i = scan_up (\<lambda>i. Less lt data i a) i j;
          j = scan_down (\<lambda>j. \<not> Less lt data j a) i j
      in if i > j then (Swap data j a, j, True)
         else
           (let data = Swap data i j;
                i = i + 1; j = j - 1;
                (data, j) = partition_loop lt data a i j
            in (Swap data j a, j, False)))"

text \<open>\<^verbatim>\<open>partitionEqual_func\<close>\<close>

function partitionEqual_loop ::
  "('a \<Rightarrow> 'a \<Rightarrow> bool) \<Rightarrow> 'a list \<Rightarrow> nat \<Rightarrow> nat \<Rightarrow> nat \<Rightarrow> 'a list \<times> nat" where
  "partitionEqual_loop lt data a i j =
     (let i = scan_up (\<lambda>i. \<not> Less lt data a i) i j;
          j = scan_down (\<lambda>j. Less lt data a j) i j
      in if i > j then (data, i)
         else partitionEqual_loop lt (Swap data i j) a (i + 1) (j - 1))"
  by pat_completeness auto
termination
proof (relation "measure (\<lambda>(lt, data, a, i, j). j + 1 - i)", goal_cases)
  case 1
  then show ?case by simp
next
  case (2 lt data a i j i' j')
  have "i \<le> i'" using 2 by (simp add: scan_up_ge)
  moreover have "j' \<le> j" using 2 by (simp add: scan_down_le)
  ultimately show ?case using 2(3) by simp
qed

declare partitionEqual_loop.simps [simp del]

definition partitionEqual_func ::
  "('a \<Rightarrow> 'a \<Rightarrow> bool) \<Rightarrow> 'a list \<Rightarrow> nat \<Rightarrow> nat \<Rightarrow> nat \<Rightarrow> 'a list \<times> nat" where
  "partitionEqual_func lt data a b pivot =
     (let data = Swap data a pivot;
          i = a + 1; j = b - 1
      in partitionEqual_loop lt data a i j)"

text \<open>
  \<^verbatim>\<open>partialInsertionSort_func\<close>: \<open>shift_left\<close> and \<open>shift_right\<close> are its two shifting
  loops, the last argument of \<open>partialInsertionSort_loop\<close> counts the steps left of
  \<^verbatim>\<open>maxSteps\<close>.
\<close>

fun shift_left :: "('a \<Rightarrow> 'a \<Rightarrow> bool) \<Rightarrow> 'a list \<Rightarrow> nat \<Rightarrow> 'a list" where
  "shift_left lt data j =
     (if j \<ge> 1 then
        (if \<not> Less lt data j (j - 1) then data
         else shift_left lt (Swap data j (j - 1)) (j - 1))
      else data)"

declare shift_left.simps [simp del]

function shift_right :: "('a \<Rightarrow> 'a \<Rightarrow> bool) \<Rightarrow> 'a list \<Rightarrow> nat \<Rightarrow> nat \<Rightarrow> 'a list" where
  "shift_right lt data j b =
     (if j < b then
        (if \<not> Less lt data j (j - 1) then data
         else shift_right lt (Swap data j (j - 1)) (j + 1) b)
      else data)"
  by pat_completeness auto
termination
  by (relation "measure (\<lambda>(lt, data, j, b). b - j)") auto

declare shift_right.simps [simp del]

fun partialInsertionSort_loop ::
  "('a \<Rightarrow> 'a \<Rightarrow> bool) \<Rightarrow> 'a list \<Rightarrow> nat \<Rightarrow> nat \<Rightarrow> nat \<Rightarrow> nat \<Rightarrow> 'a list \<times> bool" where
  "partialInsertionSort_loop lt data a b i 0 = (data, False)"
| "partialInsertionSort_loop lt data a b i (Suc steps) =
     (let shortestShifting = 50;
          i = scan_up (\<lambda>i. \<not> Less lt data i (i - 1)) i (b - 1)
      in if i = b then (data, True)
         else if b - a < shortestShifting then (data, False)
         else
           (let data = Swap data i (i - 1);
                data = (if i - a \<ge> 2 then shift_left lt data (i - 1) else data);
                data = (if b - i \<ge> 2 then shift_right lt data (i + 1) b else data)
            in partialInsertionSort_loop lt data a b i steps))"

definition partialInsertionSort_func ::
  "('a \<Rightarrow> 'a \<Rightarrow> bool) \<Rightarrow> 'a list \<Rightarrow> nat \<Rightarrow> nat \<Rightarrow> 'a list \<times> bool" where
  "partialInsertionSort_func lt data a b =
     (let maxSteps = 5 in partialInsertionSort_loop lt data a b (a + 1) maxSteps)"

text \<open>The results of the partition functions lie in the range, which the recursion needs to end.\<close>

lemma partition_loop_bounds:
  "partition_loop lt data a i j = (data', j') \<Longrightarrow> 0 < i \<Longrightarrow> i \<le> Suc j
     \<Longrightarrow> j' \<le> j \<and> i \<le> Suc j'"
proof (induction lt data a i j arbitrary: data' j' rule: partition_loop.induct)
  case (1 lt data a i j)
  define i1 where "i1 = scan_up (\<lambda>i. Less lt data i a) i j"
  define j1 where "j1 = scan_down (\<lambda>j. \<not> Less lt data j a) i1 j"
  have i1: "i \<le> i1" "i1 \<le> Suc j"
    using "1.prems" by (simp_all add: i1_def scan_up_ge scan_up_le)
  have j1: "j1 \<le> j" "i1 \<le> Suc j1"
    using i1 by (simp_all add: j1_def scan_down_le scan_down_ge)
  show ?case
  proof (cases "i1 > j1")
    case True
    have "partition_loop lt data a i j = (data, j1)"
      using True by (subst partition_loop.simps) (simp add: i1_def j1_def Let_def)
    then have "j' = j1" using "1.prems"(1) by simp
    then show ?thesis using i1 j1 by auto
  next
    case False
    have "partition_loop lt data a i j
        = partition_loop lt (Swap data i1 j1) a (i1 + 1) (j1 - 1)"
      using False by (subst partition_loop.simps) (simp add: i1_def j1_def Let_def)
    then have l: "partition_loop lt (Swap data i1 j1) a (i1 + 1) (j1 - 1) = (data', j')"
      using "1.prems"(1) by simp
    have "i1 < j1"
      using scans_cross [OF "1.prems"(2,3) i1_def j1_def] False by simp
    then have "0 < i1 + 1" "i1 + 1 \<le> Suc (j1 - 1)" by simp_all
    from "1.IH" [OF i1_def j1_def False l this]
    show ?thesis using i1 j1 \<open>i1 < j1\<close> by auto
  qed
qed

lemma partition_func_bounds:
  assumes "partition_func lt data a b pivot = (data', mid, ap)" and "a < b"
  shows "a \<le> mid \<and> mid < b"
proof -
  define d0 where "d0 = Swap data a pivot"
  define i1 where "i1 = scan_up (\<lambda>i. Less lt d0 i a) (a + 1) (b - 1)"
  define j1 where "j1 = scan_down (\<lambda>j. \<not> Less lt d0 j a) i1 (b - 1)"
  have start: "0 < a + 1" "a + 1 \<le> Suc (b - 1)"
    using assms(2) by simp_all
  have i1: "a + 1 \<le> i1" "i1 \<le> b"
    using scan_up_le [of "a + 1" "b - 1"] assms(2) by (simp_all add: i1_def scan_up_ge)
  have j1: "j1 \<le> b - 1" "i1 \<le> Suc j1"
    using scan_down_ge [of i1 "b - 1"] i1 assms(2) by (simp_all add: j1_def scan_down_le)
  show ?thesis
  proof (cases "i1 > j1")
    case True
    then have "mid = j1"
      using assms(1) by (simp add: partition_func_def Let_def d0_def i1_def j1_def)
    then show ?thesis using i1 j1 assms(2) by auto
  next
    case False
    obtain d2 j2 where l: "partition_loop lt (Swap d0 i1 j1) a (i1 + 1) (j1 - 1) = (d2, j2)"
      by (cases "partition_loop lt (Swap d0 i1 j1) a (i1 + 1) (j1 - 1)") auto
    then have "mid = j2"
      using assms(1) False by (simp add: partition_func_def Let_def d0_def i1_def j1_def)
    moreover have "i1 < j1"
      using scans_cross [OF start i1_def j1_def] False by simp
    then have "0 < i1 + 1" "i1 + 1 \<le> Suc (j1 - 1)" by simp_all
    from partition_loop_bounds [OF l this]
    have "j2 \<le> j1 - 1" "i1 + 1 \<le> Suc j2" by simp_all
    ultimately show ?thesis using i1 j1 assms(2) by auto
  qed
qed

lemma partitionEqual_loop_ge: "partitionEqual_loop lt data a i j = (data', i') \<Longrightarrow> i \<le> i'"
proof (induction lt data a i j arbitrary: data' i' rule: partitionEqual_loop.induct)
  case (1 lt data a i j)
  define i1 where "i1 = scan_up (\<lambda>i. \<not> Less lt data a i) i j"
  define j1 where "j1 = scan_down (\<lambda>j. Less lt data a j) i1 j"
  have i1: "i \<le> i1" by (simp add: i1_def scan_up_ge)
  show ?case
  proof (cases "i1 > j1")
    case True
    have "partitionEqual_loop lt data a i j = (data, i1)"
      using True by (subst partitionEqual_loop.simps) (simp add: i1_def j1_def Let_def)
    then have "i' = i1" using "1.prems" by simp
    then show ?thesis using i1 by simp
  next
    case False
    have "partitionEqual_loop lt data a i j
        = partitionEqual_loop lt (Swap data i1 j1) a (i1 + 1) (j1 - 1)"
      using False by (subst partitionEqual_loop.simps) (simp add: i1_def j1_def Let_def)
    then have "partitionEqual_loop lt (Swap data i1 j1) a (i1 + 1) (j1 - 1) = (data', i')"
      using "1.prems" by simp
    from "1.IH" [OF i1_def j1_def False this] show ?thesis using i1 by simp
  qed
qed

lemma partitionEqual_func_gt: "partitionEqual_func lt data a b pivot = (data', mid) \<Longrightarrow> a < mid"
  using partitionEqual_loop_ge [of lt "Swap data a pivot" a "a + 1" "b - 1" data' mid]
  by (simp add: partitionEqual_func_def Let_def)

text \<open>
  \<^verbatim>\<open>pdqsort_func\<close>. \<open>pdqsort_iter\<close> is the body of its loop from \<^verbatim>\<open>breakPatterns\<close> to the
  partition: the slice is found sorted, or partitioned by \<^verbatim>\<open>partitionEqual_func\<close>, or by
  \<^verbatim>\<open>partition_func\<close>; it returns the data, \<^verbatim>\<open>limit\<close> and \<^verbatim>\<open>mid\<close>.
\<close>

datatype 'a pdqsort_iter = Sorted "'a list" | EqualPart "'a list" nat nat | Part "'a list" nat nat bool

definition pdqsort_iter ::
  "('a \<Rightarrow> 'a \<Rightarrow> bool) \<Rightarrow> 'a list \<Rightarrow> nat \<Rightarrow> nat \<Rightarrow> nat \<Rightarrow> bool \<Rightarrow> bool \<Rightarrow> 'a pdqsort_iter" where
  "pdqsort_iter lt data a b limit wasBalanced wasPartitioned =
     (let (data, limit) =
            (if \<not> wasBalanced then (breakPatterns_func data a b, limit - 1) else (data, limit));
          (pivot, hint) = choosePivot_func lt data a b;
          (data, pivot, hint) =
            (if hint = decreasingHint
             then (reverseRange_func data a b, (b - 1) - (pivot - a), increasingHint)
             else (data, pivot, hint));
          (data, sorted) =
            (if wasBalanced \<and> wasPartitioned \<and> hint = increasingHint
             then partialInsertionSort_func lt data a b
             else (data, False))
      in if sorted then Sorted data
         else if a > 0 \<and> \<not> Less lt data (a - 1) pivot then
           (let (data, mid) = partitionEqual_func lt data a b pivot
            in EqualPart data limit mid)
         else
           (let (data, mid, alreadyPartitioned) = partition_func lt data a b pivot
            in Part data limit mid alreadyPartitioned))"

lemma pdqsort_iter_EqualPart:
  "pdqsort_iter lt data a b limit wb wp = EqualPart data' limit' mid \<Longrightarrow> a < mid"
  by (auto simp: pdqsort_iter_def Let_def split: prod.splits if_splits dest: partitionEqual_func_gt)

lemma pdqsort_iter_Part:
  "pdqsort_iter lt data a b limit wb wp = Part data' limit' mid ap \<Longrightarrow> a < b \<Longrightarrow> a \<le> mid \<and> mid < b"
  by (auto simp: pdqsort_iter_def Let_def split: prod.splits if_splits dest: partition_func_bounds)

function pdqsort_func ::
  "('a \<Rightarrow> 'a \<Rightarrow> bool) \<Rightarrow> 'a list \<Rightarrow> nat \<Rightarrow> nat \<Rightarrow> nat \<Rightarrow> bool \<Rightarrow> bool \<Rightarrow> 'a list" where
  "pdqsort_func lt data a b limit wasBalanced wasPartitioned =
     (let maxInsertion = 12; len = b - a
      in if len \<le> maxInsertion then insertionSort_func lt data a b
         else if limit = 0 then heapSort_func lt data a b
         else
           (case pdqsort_iter lt data a b limit wasBalanced wasPartitioned of
              Sorted data \<Rightarrow> data
            | EqualPart data limit mid \<Rightarrow>
                pdqsort_func lt data mid b limit wasBalanced wasPartitioned
            | Part data limit mid alreadyPartitioned \<Rightarrow>
                (let leftLen = mid - a; rightLen = b - mid; balanceThreshold = len div 8
                 in if leftLen < rightLen then
                      pdqsort_func lt (pdqsort_func lt data a mid limit True True)
                        (mid + 1) b limit (leftLen \<ge> balanceThreshold) alreadyPartitioned
                    else
                      pdqsort_func lt (pdqsort_func lt data (mid + 1) b limit True True)
                        a mid limit (rightLen \<ge> balanceThreshold) alreadyPartitioned)))"
  by pat_completeness auto
termination
proof (relation "measure (\<lambda>(lt, data, a, b, limit, wb, wp). b - a)", goal_cases)
  case 1
  then show ?case by simp
next
  case (2 lt data a b limit wb wp x y d l mid)
  then show ?case using pdqsort_iter_EqualPart [of lt data a b limit wb wp d l mid] by simp
next
  case (3 lt data a b limit wb wp x y d l mid ap)
  then have "a < b" by simp
  then have "a \<le> mid \<and> mid < b"
    using 3 pdqsort_iter_Part [of lt data a b limit wb wp d l mid ap] by blast
  then show ?case by (simp; arith)
next
  case (4 lt data a b limit wb wp x y d l mid ap)
  then have "a < b" by simp
  then have "a \<le> mid \<and> mid < b"
    using 4 pdqsort_iter_Part [of lt data a b limit wb wp d l mid ap] by blast
  then show ?case by (simp; arith)
next
  case (5 lt data a b limit wb wp x y d l mid ap)
  then have "a < b" by simp
  then have "a \<le> mid \<and> mid < b"
    using 5 pdqsort_iter_Part [of lt data a b limit wb wp d l mid ap] by blast
  then show ?case by (simp; arith)
next
  case (6 lt data a b limit wb wp x y d l mid ap)
  then have "a < b" by simp
  then have "a \<le> mid \<and> mid < b"
    using 6 pdqsort_iter_Part [of lt data a b limit wb wp d l mid ap] by blast
  then show ?case by (simp; arith)
qed

declare pdqsort_func.simps [simp del]

text \<open>\<^verbatim>\<open>func Slice(x any, less func(i, j int) bool)\<close>\<close>

definition sort_Slice :: "('a \<Rightarrow> 'a \<Rightarrow> bool) \<Rightarrow> 'a list \<Rightarrow> 'a list" where
  "sort_Slice lt x =
     (let len = length x; limit = bits_Len len
      in pdqsort_func lt x 0 len limit True True)"

section \<open>The program\<close>

text \<open>The comparison of the closure passed to \<^verbatim>\<open>sort.Slice\<close> in \<^verbatim>\<open>main\<close>, on two records.\<close>

definition sortLess :: "string \<Rightarrow> Metrics \<Rightarrow> Metrics \<Rightarrow> bool" where
  "sortLess sortBy x y =
     (let key = strings_ToLower sortBy
      in if key = ''ctr'' then fgt (CTR x) (CTR y)
         else if key = ''cvr'' then fgt (CVR x) (CVR y)
         else if key = ''cpa'' then flt (CPA x) (CPA y)
         else if key = ''spend'' then fgt (Spend x) (Spend y)
         else if key = ''revenue'' then fgt (Revenue x) (Revenue y)
         else fgt (ROAS x) (ROAS y))"

text \<open>
  The closure that finds the lowest CPA: \<open>lowest_loop\<close> is its loop over \<^verbatim>\<open>all[1:]\<close>,
  started with \<^verbatim>\<open>best := all[0]\<close>. It runs only under \<^verbatim>\<open>len(all) > 1\<close>.
\<close>

fun lowest_loop :: "Metrics \<Rightarrow> Metrics list \<Rightarrow> Metrics" where
  "lowest_loop best [] = best"
| "lowest_loop best (m # ms) =
     lowest_loop
       (if fgt (Conversions m) (Finite 0) \<and> flt (CPA m) (CPA best) then m else best) ms"

definition lowestCPA :: "Metrics list \<Rightarrow> string \<times> float64" where
  "lowestCPA all = (let best = lowest_loop (all ! 0) (drop 1 all) in (Name best, CPA best))"

text \<open>
  The command-line flags, \<open>None\<close> for a flag that is not given; what the program writes
  to the standard error before \<^verbatim>\<open>os.Exit\<close>; and what it prints when it returns: the
  header line (count and lower-cased sort key), the table, the summary, and the two
  lines \<^verbatim>\<open>Best ROAS\<close> and \<^verbatim>\<open>Lowest CPA\<close> when they are printed.
\<close>

record Flags =
  file_flag :: "string option"
  sort_flag :: "string option"
  min_roas_flag :: "float64 option"

datatype message = FileFlagRequired | LoadFailed load_error | NoCampaignRows

record Report =
  campaign_count :: nat
  sorted_by :: string
  table :: "Metrics list"
  summary :: Metrics
  best_roas :: "(string \<times> float64) option"
  lowest_cpa :: "(string \<times> float64) option"

datatype outcome = Exit nat message | Panic | Returns Report

text \<open>
  \<^verbatim>\<open>func main()\<close>. \<open>fs\<close> gives what \<^verbatim>\<open>loadCSV\<close> reads at a path. The flags default to the
  empty path, the key \<^verbatim>\<open>roas\<close> and the threshold 0.
\<close>

definition main :: "(string \<Rightarrow> csv_source) \<Rightarrow> Flags \<Rightarrow> outcome" where
  "main fs flags =
     (let filePath = (case file_flag flags of None \<Rightarrow> [] | Some v \<Rightarrow> v);
          sortBy = (case sort_flag flags of None \<Rightarrow> ''roas'' | Some v \<Rightarrow> v);
          minROAS = (case min_roas_flag flags of None \<Rightarrow> Finite 0 | Some v \<Rightarrow> v)
      in if filePath = [] then Exit 1 FileFlagRequired
         else
           (case loadCSV (fs filePath) of
              Inl err \<Rightarrow> if err = IndexOutOfRange then Panic else Exit 1 (LoadFailed err)
            | Inr campaigns \<Rightarrow>
                if length campaigns = 0 then Exit 0 NoCampaignRows
                else
                  (let all = filter_loop minROAS campaigns [];
                       all = sort_Slice (sortLess sortBy) all;
                       total = totalMetrics all
                   in Returns
                        \<lparr> campaign_count = length all,
                          sorted_by = strings_ToLower sortBy,
                          table = all,
                          summary = total,
                          best_roas =
                            (if length all > 1 then Some (Name (all ! 0), ROAS (all ! 0))
                             else None),
                          lowest_cpa =
                            (if length all > 1 then Some (lowestCPA all) else None) \<rparr>)))"

section \<open>Reference notions of the specification\<close>

text \<open>
  The invariant of a raw record: its five measures are finite, and they are not negative.
\<close>

definition finite_measures :: "Campaign \<Rightarrow> bool" where
  "finite_measures c \<longleftrightarrow>
     is_finite (Campaign.Impressions c) \<and> is_finite (Campaign.Clicks c)
     \<and> is_finite (Campaign.Conversions c) \<and> is_finite (Campaign.Spend c)
     \<and> is_finite (Campaign.Revenue c)"

definition nonneg_finite :: "float64 \<Rightarrow> bool" where
  "nonneg_finite x \<longleftrightarrow> is_finite x \<and> fge x (Finite 0)"

definition nonneg_measures :: "Campaign \<Rightarrow> bool" where
  "nonneg_measures c \<longleftrightarrow>
     nonneg_finite (Campaign.Impressions c) \<and> nonneg_finite (Campaign.Clicks c)
     \<and> nonneg_finite (Campaign.Conversions c) \<and> nonneg_finite (Campaign.Spend c)
     \<and> nonneg_finite (Campaign.Revenue c)"

text \<open>The sum of a list in \<^verbatim>\<open>float64\<close>, added from the left to 0.\<close>

definition float_sum :: "float64 list \<Rightarrow> float64" where
  "float_sum xs = foldl fadd (Finite 0) xs"

text \<open>
  Rounding to the nearest integer with ties away from zero, as a relation between a
  real number and an integer. \<open>exact_2dp v r\<close>: the real number \<open>r\<close> is \<open>v\<close> rounded to two
  decimal places by it. \<open>rounded_2dp p r\<close>: the \<^verbatim>\<open>float64\<close> \<open>r\<close> is the one nearest to
  \<open>n / 100\<close>, with the sign of \<open>p\<close>, where \<open>n\<close> is the finite \<^verbatim>\<open>float64\<close> \<open>p\<close> rounded to
  an integer.
\<close>

definition half_away :: "real \<Rightarrow> int \<Rightarrow> bool" where
  "half_away x n \<longleftrightarrow>
     \<bar>x - of_int n\<bar> < 1 / 2 \<or> (\<bar>x - of_int n\<bar> = 1 / 2 \<and> \<bar>x\<bar> < \<bar>of_int n\<bar>)"

definition exact_2dp :: "real \<Rightarrow> real \<Rightarrow> bool" where
  "exact_2dp v r \<longleftrightarrow> (\<exists>n. r = of_int n / 100 \<and> half_away (v * 100) n)"

definition rounded_2dp :: "float64 \<Rightarrow> float64 \<Rightarrow> bool" where
  "rounded_2dp p r \<longleftrightarrow>
     (\<exists>n. half_away (fval p) n \<and> r = float64_round (sign_bit p) (\<bar>of_int n\<bar> / 100))"

text \<open>
  The first sample row of the documentation, the two skewed campaigns of the
  specification, and a campaign whose cost per click is 23 / 40 = 0.575.
\<close>

definition sample_brand :: Campaign where
  "sample_brand =
     \<lparr> Campaign.Name = ''Google Search - Brand'', Campaign.Impressions = Finite 120000,
       Campaign.Clicks = Finite 4800, Campaign.Conversions = Finite 320,
       Campaign.Spend = Finite 1850, Campaign.Revenue = Finite 9200 \<rparr>"

definition skew_A :: Campaign where
  "skew_A =
     \<lparr> Campaign.Name = ''A'', Campaign.Impressions = Finite 0, Campaign.Clicks = Finite 0,
       Campaign.Conversions = Finite 0, Campaign.Spend = Finite 1000,
       Campaign.Revenue = Finite 1000 \<rparr>"

definition skew_B :: Campaign where
  "skew_B =
     \<lparr> Campaign.Name = ''B'', Campaign.Impressions = Finite 0, Campaign.Clicks = Finite 0,
       Campaign.Conversions = Finite 0, Campaign.Spend = Finite 10,
       Campaign.Revenue = Finite 50 \<rparr>"

definition tie_cpc :: Campaign where
  "tie_cpc =
     \<lparr> Campaign.Name = ''Display'', Campaign.Impressions = Finite 1000,
       Campaign.Clicks = Finite 40, Campaign.Conversions = Finite 1,
       Campaign.Spend = Finite 23, Campaign.Revenue = Finite 46 \<rparr>"

text \<open>
  The numeric columns in the order in which a row is parsed; a cell that \<^verbatim>\<open>parseFloat\<close>
  rejects; the cells of the data rows in reading order, each with the number of its row
  (the header is row 1); the first cell that fails; the campaign of a row that parses.
\<close>

definition numericCols :: "string list" where
  "numericCols = [''impressions'', ''clicks'', ''conversions'', ''spend'', ''revenue'']"

definition unparseable :: "(string \<rightharpoonup> nat) \<Rightarrow> string list \<Rightarrow> string \<Rightarrow> bool" where
  "unparseable header row col \<longleftrightarrow> parseFloat (row ! lookup header col) = None"

definition cells :: "nat \<Rightarrow> string list list \<Rightarrow> (nat \<times> string list \<times> string) list" where
  "cells n data =
     concat (map (\<lambda>(n, row). map (\<lambda>col. (n, row, col)) numericCols) (enumerate n data))"

definition first_failure :: "(string \<rightharpoonup> nat) \<Rightarrow> string list list \<Rightarrow> (nat \<times> string) option" where
  "first_failure header data =
     map_option (\<lambda>(n, row, col). (n, col))
       (List.find (\<lambda>(n, row, col). unparseable header row col) (cells 2 data))"

definition to_campaign :: "(string \<rightharpoonup> nat) \<Rightarrow> string list \<Rightarrow> Campaign" where
  "to_campaign header row =
     \<lparr> Campaign.Name = strings_TrimSpace (row ! lookup header ''campaign_name''),
       Campaign.Impressions = the (parseFloat (row ! lookup header ''impressions'')),
       Campaign.Clicks = the (parseFloat (row ! lookup header ''clicks'')),
       Campaign.Conversions = the (parseFloat (row ! lookup header ''conversions'')),
       Campaign.Spend = the (parseFloat (row ! lookup header ''spend'')),
       Campaign.Revenue = the (parseFloat (row ! lookup header ''revenue'')) \<rparr>"

definition wide :: "(string \<rightharpoonup> nat) \<Rightarrow> string list \<Rightarrow> bool" where
  "wide header row \<longleftrightarrow> list_all (\<lambda>col. lookup header col < length row) requiredCols"

text \<open>
  What \<^verbatim>\<open>csv.Reader.ReadAll\<close> can return: every record has at least one field (the reader
  skips empty lines).
\<close>

definition csv_records :: "csv_source \<Rightarrow> bool" where
  "csv_records src = (case src of Rows rows \<Rightarrow> list_all (\<lambda>row. row \<noteq> []) rows | _ \<Rightarrow> True)"

text \<open>
  Stability of a reordering \<open>ys\<close> of \<open>xs\<close> for a key: for every key value, the records
  with that value are in \<open>ys\<close> in the order they have in \<open>xs\<close>.
\<close>

definition stable_for :: "('a \<Rightarrow> 'k) \<Rightarrow> 'a list \<Rightarrow> 'a list \<Rightarrow> bool" where
  "stable_for key xs ys \<longleftrightarrow> (\<forall>k. filter (\<lambda>x. key x = k) ys = filter (\<lambda>x. key x = k) xs)"

text \<open>
  The field that a sort key selects: the sort-key value of a record. \<open>rank\<close> is the place
  of a \<^verbatim>\<open>float64\<close> in the order of \<^verbatim>\<open><\<close>: two values that are not NaN are \<^verbatim>\<open>==\<close> when they
  have the same rank (the two zeros have), and \<^verbatim>\<open><\<close> when the ranks are; NaN has a rank
  of its own.
\<close>

definition sort_key :: "string \<Rightarrow> Metrics \<Rightarrow> float64" where
  "sort_key sortBy m =
     (let key = strings_ToLower sortBy
      in if key = ''ctr'' then CTR m
         else if key = ''cvr'' then CVR m
         else if key = ''cpa'' then CPA m
         else if key = ''spend'' then Spend m
         else if key = ''revenue'' then Revenue m
         else ROAS m)"

definition rank :: "float64 \<Rightarrow> int \<times> real" where
  "rank x =
     (case x of
        Finite q \<Rightarrow> (0, q)
      | NegZero \<Rightarrow> (0, 0)
      | Infinity s \<Rightarrow> (if s then - 1 else 1, 0)
      | NaN \<Rightarrow> (2, 0))"

text \<open>Sample inputs: a header row, and files as records of fields.\<close>

definition sample_header :: "string list" where
  "sample_header =
     [''campaign_name'', ''impressions'', ''clicks'', ''conversions'', ''spend'', ''revenue'']"

definition negative_rows :: "string list list" where
  "negative_rows = [sample_header, [''Promo'', ''-5'', ''10'', ''1'', ''20'', ''40'']]"

definition refund_rows :: "string list list" where
  "refund_rows = [sample_header, [''Refund'', ''1000'', ''100'', ''10'', ''20'', ''-50'']]"

definition broken_rows :: "string list list" where
  "broken_rows =
     [sample_header,
      [''Promo'', ''5'', ''10'', ''1'', ''20'', ''40''],
      [''Search'', ''7'', ''n/a'', ''1'', [], ''40'']]"

definition zero_conversion_rows :: "string list list" where
  "zero_conversion_rows =
     [sample_header,
      [''A'', ''1000'', ''100'', ''0'', ''100'', ''500''],
      [''B'', ''1000'', ''100'', ''10'', ''100'', ''200'']]"

definition nan_rows :: "string list list" where
  "nan_rows =
     [sample_header,
      [''A'', ''100'', ''1'', ''1'', ''10'', ''20''],
      [''B'', ''100'', ''NaN'', ''1'', ''10'', ''20''],
      [''C'', ''100'', ''2'', ''1'', ''10'', ''20'']]"

text \<open>The metrics of the two campaigns of \<open>zero_conversion_rows\<close>.\<close>

definition metrics_A :: Metrics where
  "metrics_A =
     \<lparr> Name = ''A'', CTR = Finite 10, CVR = Finite 0, CPC = Finite 1, CPA = Finite 0,
       ROAS = Finite 5, RevPerConv = Finite 0, Spend = Finite 100, Revenue = Finite 500,
       Impressions = Finite 1000, Clicks = Finite 100, Conversions = Finite 0 \<rparr>"

definition metrics_B :: Metrics where
  "metrics_B =
     \<lparr> Name = ''B'', CTR = Finite 10, CVR = Finite 10, CPC = Finite 1, CPA = Finite 10,
       ROAS = Finite 2, RevPerConv = Finite 20, Spend = Finite 100, Revenue = Finite 200,
       Impressions = Finite 1000, Clicks = Finite 100, Conversions = Finite 10 \<rparr>"

text \<open>Thirteen campaigns, the first with ROAS 0 and twelve with ROAS 1.\<close>

definition tie :: "string \<Rightarrow> real \<Rightarrow> Campaign" where
  "tie name revenue =
     \<lparr> Campaign.Name = name, Campaign.Impressions = Finite 0, Campaign.Clicks = Finite 0,
       Campaign.Conversions = Finite 0, Campaign.Spend = Finite 1,
       Campaign.Revenue = Finite revenue \<rparr>"

definition tie_campaigns :: "Campaign list" where
  "tie_campaigns =
     [tie ''c00'' 0, tie ''c01'' 1, tie ''c02'' 1, tie ''c03'' 1, tie ''c04'' 1,
      tie ''c05'' 1, tie ''c06'' 1, tie ''c07'' 1, tie ''c08'' 1, tie ''c09'' 1,
      tie ''c10'' 1, tie ''c11'' 1, tie ''c12'' 1]"

text \<open>
  The sort contract: the six sort keys, each with the field it selects and the direction
  of the order. A key is looked up in lower case; a key that is not one of the six, and
  no key at all, select \<open>roas\<close>, descending. A sequence is ordered by a field ascending when
  every value of the field is \<^verbatim>\<open><=\<close> every later one, and descending when it is \<^verbatim>\<open>>=\<close>.
\<close>

datatype direction = Ascending | Descending

definition sort_keys :: "(string \<times> (Metrics \<Rightarrow> float64) \<times> direction) list" where
  "sort_keys =
     [(''roas'', ROAS, Descending), (''ctr'', CTR, Descending), (''cvr'', CVR, Descending),
      (''cpa'', CPA, Ascending), (''spend'', Spend, Descending),
      (''revenue'', Revenue, Descending)]"

definition selected_key :: "string option \<Rightarrow> (Metrics \<Rightarrow> float64) \<times> direction" where
  "selected_key flag =
     (case flag of
        None \<Rightarrow> (ROAS, Descending)
      | Some s \<Rightarrow>
          (case map_of sort_keys (strings_ToLower s) of
             None \<Rightarrow> (ROAS, Descending)
           | Some k \<Rightarrow> k))"

definition ordered_by :: "(Metrics \<Rightarrow> float64) \<times> direction \<Rightarrow> Metrics list \<Rightarrow> bool" where
  "ordered_by k ys =
     (case k of
        (field, Ascending) \<Rightarrow> sorted_wrt fle (map field ys)
      | (field, Descending) \<Rightarrow> sorted_wrt fge (map field ys))"

text \<open>
  The rank by which a key orders a record ascending: the rank of the field, negated when
  the direction is descending.
\<close>

definition signed_rank :: "(Metrics \<Rightarrow> float64) \<times> direction \<Rightarrow> Metrics \<Rightarrow> int \<times> real" where
  "signed_rank k m =
     (case k of
        (field, Ascending) \<Rightarrow> rank (field m)
      | (field, Descending) \<Rightarrow> (- fst (rank (field m)), - snd (rank (field m))))"

text \<open>
  Notions for the correctness of the library sort. \<open>key_lt f\<close> is the comparison by a key
  \<open>f\<close>. For the slice \<open>[a, b)\<close> of the data: \<open>perm_in\<close> says that a step has permuted the
  slice and left the rest in place, \<open>sorted_in\<close> that the slice is in ascending order of the
  key, \<open>all_in\<close> that a property holds of each of its elements.
\<close>

definition key_lt :: "('a \<Rightarrow> 'k::linorder) \<Rightarrow> 'a \<Rightarrow> 'a \<Rightarrow> bool" where
  "key_lt f x y \<longleftrightarrow> f x < f y"

definition perm_in :: "nat \<Rightarrow> nat \<Rightarrow> 'a list \<Rightarrow> 'a list \<Rightarrow> bool" where
  "perm_in a b d d' \<longleftrightarrow>
     length d' = length d \<and> mset d' = mset d \<and> take a d' = take a d \<and> drop b d' = drop b d"

definition sorted_in :: "('a \<Rightarrow> 'k::linorder) \<Rightarrow> nat \<Rightarrow> nat \<Rightarrow> 'a list \<Rightarrow> bool" where
  "sorted_in f a b d \<longleftrightarrow> (\<forall>i j. a \<le> i \<and> i < j \<and> j < b \<longrightarrow> f (d ! i) \<le> f (d ! j))"

definition all_in :: "nat \<Rightarrow> nat \<Rightarrow> ('a \<Rightarrow> bool) \<Rightarrow> 'a list \<Rightarrow> bool" where
  "all_in a b P d \<longleftrightarrow> (\<forall>k. a \<le> k \<and> k < b \<longrightarrow> P (d ! k))"

text \<open>A lower guard: no element of the range is less than the element before the range.\<close>

definition guarded :: "('a \<Rightarrow> 'k::linorder) \<Rightarrow> nat \<Rightarrow> nat \<Rightarrow> 'a list \<Rightarrow> bool" where
  "guarded f a b d \<longleftrightarrow> a = 0 \<or> all_in a b (\<lambda>x. \<not> f x < f (d ! (a - 1))) d"

text \<open>
  The heap of \<^verbatim>\<open>heapSort_func\<close> on the slice that starts at \<open>first\<close>: the children of the node
  \<open>r\<close> are the nodes \<open>2 r + 1\<close> and \<open>2 r + 2\<close>. \<open>heap_from\<close> says that below \<open>hi\<close> no child of a
  node from \<open>lo\<close> on has a larger key than its parent; \<open>heap_except\<close> is the same with the
  node \<open>root'\<close> left out, whose children are compared with its parent instead.
\<close>

definition is_child :: "nat \<Rightarrow> nat \<Rightarrow> bool" where
  "is_child c r \<longleftrightarrow> c = 2 * r + 1 \<or> c = 2 * r + 2"

definition heap_from :: "('a \<Rightarrow> 'k::linorder) \<Rightarrow> nat \<Rightarrow> nat \<Rightarrow> nat \<Rightarrow> 'a list \<Rightarrow> bool" where
  "heap_from f first lo hi d \<longleftrightarrow>
     (\<forall>r c. lo \<le> r \<and> c < hi \<and> is_child c r \<longrightarrow> f (d ! (first + c)) \<le> f (d ! (first + r)))"

definition heap_except ::
  "('a \<Rightarrow> 'k::linorder) \<Rightarrow> nat \<Rightarrow> nat \<Rightarrow> nat \<Rightarrow> nat \<Rightarrow> 'a list \<Rightarrow> bool" where
  "heap_except f first lo hi root' d \<longleftrightarrow>
     (\<forall>r c. lo \<le> r \<and> r \<noteq> root' \<and> c < hi \<and> is_child c r
        \<longrightarrow> f (d ! (first + c)) \<le> f (d ! (first + r)))
     \<and> (\<forall>p c. lo \<le> p \<and> is_child root' p \<and> c < hi \<and> is_child c root'
        \<longrightarrow> f (d ! (first + c)) \<le> f (d ! (first + p)))"

text \<open>
  The slice is partitioned around the element at \<open>mid\<close>: smaller keys before it, no smaller
  key after it.
\<close>

definition partitioned :: "('a \<Rightarrow> 'k::linorder) \<Rightarrow> nat \<Rightarrow> nat \<Rightarrow> nat \<Rightarrow> 'a list \<Rightarrow> bool" where
  "partitioned f a mid b d \<longleftrightarrow>
     all_in a mid (\<lambda>x. f x < f (d ! mid)) d \<and> all_in (Suc mid) b (\<lambda>x. \<not> f x < f (d ! mid)) d"

section \<open>The metrics engine\<close>

subsection \<open>Evaluation\<close>

lemmas float_eval =
  fadd_def fmul_def fdiv_def feq_def flt_def fle_def fgt_def fge_def math_Round_def
  float64_of_def float64_round_def make_finite_def ilog2_def pow2_def rne_def
  bit_length.simps is_finite_def is_zero_def sign_bit_def fval_def magnitude_def Let_def

lemmas metrics_eval = computeMetrics_def safe_def round2_def float_eval

subsection \<open>Signs and special values\<close>

lemma pow2_pos: "0 < pow2 k"
  by (simp add: pow2_def)

lemma rne_nonneg: "0 \<le> x \<Longrightarrow> 0 \<le> rne x"
  by (auto simp: rne_def Let_def)

lemma float64_round_cases:
  "0 \<le> q \<Longrightarrow>
     float64_round s q = Infinity s
     \<or> (\<exists>r. 0 \<le> r \<and> (q = 0 \<longrightarrow> r = 0) \<and> float64_round s q = make_finite s r)"
proof (cases "q = 0")
  case True
  then show ?thesis by (simp add: float64_round_def)
next
  case False
  assume q: "0 \<le> q"
  define e where "e = max (ilog2 q) (- 1022)"
  define n where "n = rne (q * pow2 (52 - e))"
  have "0 \<le> q * pow2 (52 - e)"
    using q pow2_pos [of "52 - e"] by simp
  then have "0 \<le> n"
    unfolding n_def by (rule rne_nonneg)
  then have "0 \<le> of_int n * pow2 (e - 52)"
    using pow2_pos [of "e - 52"] by simp
  then show ?thesis
    using False by (auto simp: float64_round_def Let_def e_def n_def)
qed

lemma float64_round_not_NaN [simp]: "float64_round s q \<noteq> NaN"
  by (simp add: float64_round_def make_finite_def Let_def)

lemma make_finite_not_NaN [simp]: "make_finite s r \<noteq> NaN"
  by (simp add: make_finite_def)

lemma feq_zero: "feq b (Finite 0) \<longleftrightarrow> is_zero b"
  by (cases b) (simp_all add: feq_def is_zero_def is_finite_def fval_def)

lemma fmul_100_not_NaN: "x \<noteq> NaN \<Longrightarrow> fmul x (Finite 100) \<noteq> NaN"
  by (simp add: fmul_def is_zero_def is_finite_def)

lemma math_Round_not_NaN: "x \<noteq> NaN \<Longrightarrow> math_Round x \<noteq> NaN"
  by (cases x) (simp_all add: math_Round_def)

lemma fdiv_100_not_NaN: "x \<noteq> NaN \<Longrightarrow> fdiv x (Finite 100) \<noteq> NaN"
  by (cases x) (simp_all add: fdiv_def is_zero_def is_finite_def)

lemma round2_not_NaN: "x \<noteq> NaN \<Longrightarrow> round2 x \<noteq> NaN"
  by (simp add: round2_def fmul_100_not_NaN math_Round_not_NaN fdiv_100_not_NaN)

lemma safe_not_NaN: "is_finite a \<Longrightarrow> is_finite b \<Longrightarrow> safe a b \<noteq> NaN"
  by (cases a; cases b) (simp_all add: safe_def feq_zero fdiv_def is_finite_def)

lemma round2_zero: "round2 (Finite 0) = Finite 0" "round2 (fmul (Finite 0) (Finite 100)) = Finite 0"
  by (simp_all add: metrics_eval)

text \<open>
  C1. \<open>computeMetrics\<close> has no failure branch. Each of the six ratios is exactly 0 when
  its denominator field is a zero, and is otherwise the quotient of its formula (times
  100 for the two percentages), computed in \<^verbatim>\<open>float64\<close> and passed to \<open>round2\<close>. On a record
  with finite measures no ratio is NaN.
\<close>

theorem C1_zero_denominator_policy:
  assumes "finite_measures c"
  shows "CTR (computeMetrics c) =
     (if is_zero (Campaign.Impressions c) then Finite 0
      else round2 (fmul (fdiv (Campaign.Clicks c) (Campaign.Impressions c)) (Finite 100)))
   \<and> CVR (computeMetrics c) =
     (if is_zero (Campaign.Clicks c) then Finite 0
      else round2 (fmul (fdiv (Campaign.Conversions c) (Campaign.Clicks c)) (Finite 100)))
   \<and> CPC (computeMetrics c) =
     (if is_zero (Campaign.Clicks c) then Finite 0
      else round2 (fdiv (Campaign.Spend c) (Campaign.Clicks c)))
   \<and> CPA (computeMetrics c) =
     (if is_zero (Campaign.Conversions c) then Finite 0
      else round2 (fdiv (Campaign.Spend c) (Campaign.Conversions c)))
   \<and> ROAS (computeMetrics c) =
     (if is_zero (Campaign.Spend c) then Finite 0
      else round2 (fdiv (Campaign.Revenue c) (Campaign.Spend c)))
   \<and> RevPerConv (computeMetrics c) =
     (if is_zero (Campaign.Conversions c) then Finite 0
      else round2 (fdiv (Campaign.Revenue c) (Campaign.Conversions c)))
   \<and> CTR (computeMetrics c) \<noteq> NaN \<and> CVR (computeMetrics c) \<noteq> NaN
   \<and> CPC (computeMetrics c) \<noteq> NaN \<and> CPA (computeMetrics c) \<noteq> NaN
   \<and> ROAS (computeMetrics c) \<noteq> NaN \<and> RevPerConv (computeMetrics c) \<noteq> NaN"
proof -
  have vals: "round2 (safe a b) = (if is_zero b then Finite 0 else round2 (fdiv a b))"
    "round2 (fmul (safe a b) (Finite 100)) =
       (if is_zero b then Finite 0 else round2 (fmul (fdiv a b) (Finite 100)))" for a b
    by (simp_all add: safe_def feq_zero round2_zero)
  have no_NaN: "round2 (safe a b) \<noteq> NaN" "round2 (fmul (safe a b) (Finite 100)) \<noteq> NaN"
    if "is_finite a" "is_finite b" for a b
    using that by (simp_all add: round2_not_NaN fmul_100_not_NaN safe_not_NaN)
  have "CTR (computeMetrics c) \<noteq> NaN \<and> CVR (computeMetrics c) \<noteq> NaN
   \<and> CPC (computeMetrics c) \<noteq> NaN \<and> CPA (computeMetrics c) \<noteq> NaN
   \<and> ROAS (computeMetrics c) \<noteq> NaN \<and> RevPerConv (computeMetrics c) \<noteq> NaN"
    using assms unfolding finite_measures_def computeMetrics_def
    by (simp add: no_NaN)
  then show ?thesis
    by (simp add: computeMetrics_def vals)
qed

theorem C1_zero_denominator_policy_witness:
  "finite_measures skew_A
   \<and> is_zero (Campaign.Impressions skew_A) \<and> CTR (computeMetrics skew_A) = Finite 0
   \<and> \<not> is_zero (Campaign.Spend skew_A) \<and> ROAS (computeMetrics skew_A) = Finite 1
   \<and> fdiv (Finite 1000) (Finite 0) = Infinity False \<and> fdiv (Finite 0) (Finite 0) = NaN"
proof -
  have f: "finite_measures skew_A"
    by (simp add: finite_measures_def skew_A_def is_finite_def)
  have "ROAS (computeMetrics skew_A) = Finite 1"
    by (simp add: skew_A_def metrics_eval)
  moreover have "fdiv (Finite 1000) (Finite 0) = Infinity False \<and> fdiv (Finite 0) (Finite 0) = NaN"
    by (simp add: float_eval)
  ultimately show ?thesis
    using C1_zero_denominator_policy [OF f] f by (simp add: skew_A_def is_zero_def)
qed

subsection \<open>Rounding\<close>

lemma sign_bit_make_finite: "0 \<le> r \<Longrightarrow> sign_bit (make_finite s r) = s"
  by (simp add: make_finite_def sign_bit_def)

lemma magnitude_make_finite: "magnitude (make_finite s r) = \<bar>r\<bar>"
  by (simp add: make_finite_def magnitude_def fval_def)

lemma is_finite_make_finite [simp]: "is_finite (make_finite s r)"
  by (simp add: make_finite_def is_finite_def)

lemma math_Round_half_away:
  assumes "is_finite x"
  shows "\<exists>n. half_away (fval x) n \<and> math_Round x = make_finite (sign_bit x) \<bar>of_int n\<bar>"
proof (cases x)
  case (Finite q)
  define m where "m = \<lfloor>\<bar>q\<bar> + 1 / 2\<rfloor>"
  define n where "n = (if q < 0 then - m else m)"
  have m: "0 \<le> m"
    unfolding m_def by linarith
  have "half_away q n"
  proof (cases "q < 0")
    case True
    then have "n = - \<lfloor>- q + 1 / 2\<rfloor>"
      by (simp add: n_def m_def)
    then show ?thesis
      unfolding half_away_def using True by linarith
  next
    case False
    then have "n = \<lfloor>q + 1 / 2\<rfloor>"
      by (simp add: n_def m_def)
    then show ?thesis
      unfolding half_away_def using False by linarith
  qed
  moreover have "\<bar>of_int n :: real\<bar> = of_int m"
    using m by (simp add: n_def)
  ultimately show ?thesis
    using Finite by (auto simp: math_Round_def sign_bit_def fval_def m_def)
next
  case NegZero
  have "half_away 0 0"
    by (simp add: half_away_def)
  then show ?thesis
    using NegZero by (auto simp: math_Round_def sign_bit_def fval_def make_finite_def)
qed (use assms in \<open>simp_all add: is_finite_def\<close>)

lemma hundred:
  "is_finite (Finite 100)" "\<not> is_zero (Finite 100)" "\<not> sign_bit (Finite 100)"
  "magnitude (Finite 100) = 100"
  by (simp_all add: is_finite_def is_zero_def sign_bit_def magnitude_def fval_def)

lemma fdiv_make_finite_100:
  "0 \<le> r \<Longrightarrow> fdiv (make_finite s r) (Finite 100) = float64_round s (r / 100)"
  by (simp add: fdiv_def sign_bit_make_finite magnitude_make_finite hundred)

lemma round2_rounded_2dp:
  assumes "is_finite (fmul v (Finite 100))"
  shows "rounded_2dp (fmul v (Finite 100)) (round2 v)"
proof -
  obtain n where n: "half_away (fval (fmul v (Finite 100))) n"
    "math_Round (fmul v (Finite 100)) = make_finite (sign_bit (fmul v (Finite 100))) \<bar>of_int n\<bar>"
    using math_Round_half_away [OF assms] by blast
  have "round2 v = float64_round (sign_bit (fmul v (Finite 100))) (\<bar>of_int n\<bar> / 100)"
    unfolding round2_def n(2) by (rule fdiv_make_finite_100) simp
  then show ?thesis
    using n(1) unfolding rounded_2dp_def by blast
qed

lemma round2_not_finite:
  assumes "\<not> is_finite (fmul v (Finite 100))"
  shows "round2 v = fmul v (Finite 100)"
  using assms
  by (cases "fmul v (Finite 100)")
    (simp_all add: round2_def math_Round_def fdiv_def is_finite_def sign_bit_def)

lemma sample_brand_metrics:
  "computeMetrics sample_brand =
     \<lparr> Name = ''Google Search - Brand'', CTR = Finite 4, CVR = float64_of 6.67,
       CPC = float64_of 0.39, CPA = float64_of 5.78, ROAS = float64_of 4.97,
       RevPerConv = Finite 28.75, Spend = Finite 1850, Revenue = Finite 9200,
       Impressions = Finite 120000, Clicks = Finite 4800, Conversions = Finite 320 \<rparr>"
  by (simp add: sample_brand_def metrics_eval)

text \<open>
  C9, as the code has it. \<open>round2 v\<close> multiplies \<open>v\<close> by 100 in \<^verbatim>\<open>float64\<close>, rounds the
  product to the nearest integer with ties away from zero, and divides by 100 in
  \<^verbatim>\<open>float64\<close>: the result is the \<^verbatim>\<open>float64\<close> nearest to that integer over 100 (an infinite
  or NaN product is returned as it is). On the record clicks=4800, impressions=120000,
  spend=1850, conversions=320, revenue=9200 the ratios are CTR=4.00, CVR=6.67, CPC=0.39,
  CPA=5.78, ROAS=4.97 and RevPerConv=28.75.
\<close>

theorem C9_rounding_of_the_float64_product:
  "(is_finite (fmul v (Finite 100)) \<longrightarrow> rounded_2dp (fmul v (Finite 100)) (round2 v))
   \<and> (\<not> is_finite (fmul v (Finite 100)) \<longrightarrow> round2 v = fmul v (Finite 100))
   \<and> CTR (computeMetrics sample_brand) = Finite 4
   \<and> CVR (computeMetrics sample_brand) = float64_of 6.67
   \<and> CPC (computeMetrics sample_brand) = float64_of 0.39
   \<and> CPA (computeMetrics sample_brand) = float64_of 5.78
   \<and> ROAS (computeMetrics sample_brand) = float64_of 4.97
   \<and> RevPerConv (computeMetrics sample_brand) = Finite 28.75"
  by (simp add: round2_rounded_2dp round2_not_finite sample_brand_metrics)

theorem C9_rounding_of_the_float64_product_witness:
  "is_finite (fmul (Finite 5.78125) (Finite 100))
   \<and> rounded_2dp (fmul (Finite 5.78125) (Finite 100)) (round2 (Finite 5.78125))
   \<and> fmul (Finite 5.78125) (Finite 100) = Finite 578.125
   \<and> round2 (Finite 5.78125) = float64_of 5.78
   \<and> \<not> is_finite (fmul (Infinity False) (Finite 100))
   \<and> round2 (Infinity False) = Infinity False"
proof -
  have p: "fmul (Finite 5.78125) (Finite 100) = Finite 578.125"
    by (simp add: float_eval)
  have r: "round2 (Finite 5.78125) = float64_of 5.78"
    by (simp add: metrics_eval)
  have f: "is_finite (fmul (Finite 5.78125) (Finite 100))"
    by (simp add: float_eval)
  have i: "\<not> is_finite (fmul (Infinity False) (Finite 100))"
    by (simp add: float_eval)
  from C9_rounding_of_the_float64_product [of "Finite 5.78125"]
    C9_rounding_of_the_float64_product [of "Infinity False"] p r f i
  show ?thesis
    by (simp add: fmul_def is_finite_def is_zero_def sign_bit_def)
qed

text \<open>
  The rounding is that of the \<^verbatim>\<open>float64\<close> product, not of the quotient of the formula. For
  spend 23 and clicks 40 the quotient is 0.575, which rounds to 0.58 with ties away from
  zero. The \<^verbatim>\<open>float64\<close> nearest to 0.575 is below it, its product with 100 is below 57.5,
  and the cost per click of the program is 0.57.
\<close>

theorem C9_tie_rounds_toward_zero_counterexample:
  "Campaign.Spend tie_cpc = Finite 23 \<and> Campaign.Clicks tie_cpc = Finite 40
   \<and> exact_2dp (23 / 40) 0.58
   \<and> fval (fmul (fdiv (Finite 23) (Finite 40)) (Finite 100)) < 57.5
   \<and> CPC (computeMetrics tie_cpc) = float64_of 0.57
   \<and> float64_of 0.57 \<noteq> float64_of 0.58"
proof -
  have "half_away (23 / 40 * 100) 58"
    by (simp add: half_away_def)
  then have "exact_2dp (23 / 40) 0.58"
    unfolding exact_2dp_def by (intro exI [of _ 58]) simp
  moreover have "fval (fmul (fdiv (Finite 23) (Finite 40)) (Finite 100)) < 57.5"
    by (simp add: float_eval)
  moreover have "CPC (computeMetrics tie_cpc) = float64_of 0.57"
    by (simp add: tie_cpc_def metrics_eval)
  moreover have "float64_of 0.57 \<noteq> float64_of 0.58"
    by (simp add: float_eval)
  ultimately show ?thesis
    by (simp add: tie_cpc_def)
qed

section \<open>The aggregator\<close>

lemma foldl_total_step:
  "foldl total_step t ms =
     t \<lparr> Campaign.Impressions := foldl fadd (Campaign.Impressions t) (map Impressions ms),
         Campaign.Clicks := foldl fadd (Campaign.Clicks t) (map Clicks ms),
         Campaign.Conversions := foldl fadd (Campaign.Conversions t) (map Conversions ms),
         Campaign.Spend := foldl fadd (Campaign.Spend t) (map Spend ms),
         Campaign.Revenue := foldl fadd (Campaign.Revenue t) (map Revenue ms) \<rparr>"
  by (induction ms arbitrary: t) (simp_all add: total_step_def)

lemma skew_metrics:
  "computeMetrics skew_A =
     \<lparr> Name = ''A'', CTR = Finite 0, CVR = Finite 0, CPC = Finite 0, CPA = Finite 0,
       ROAS = Finite 1, RevPerConv = Finite 0, Spend = Finite 1000, Revenue = Finite 1000,
       Impressions = Finite 0, Clicks = Finite 0, Conversions = Finite 0 \<rparr>"
  "computeMetrics skew_B =
     \<lparr> Name = ''B'', CTR = Finite 0, CVR = Finite 0, CPC = Finite 0, CPA = Finite 0,
       ROAS = Finite 5, RevPerConv = Finite 0, Spend = Finite 10, Revenue = Finite 50,
       Impressions = Finite 0, Clicks = Finite 0, Conversions = Finite 0 \<rparr>"
  by (simp_all add: skew_A_def skew_B_def metrics_eval)

text \<open>
  C2. The aggregate of any collection of metrics is \<open>computeMetrics\<close> of the record
  labelled TOTAL whose five measures are the sums of the carried-forward measures, so
  the blended ratios are recomputed from the sums. They are not the averages of the
  rounded per-row ratios: for the campaigns A (spend 1000, revenue 1000) and B (spend 10,
  revenue 50) the blended ROAS is 1.04 while the average of the two ROAS values is 3.
\<close>

theorem C2_total_recomputed_from_sums:
  "totalMetrics all =
     computeMetrics
       \<lparr> Campaign.Name = ''TOTAL'',
         Campaign.Impressions = float_sum (map Impressions all),
         Campaign.Clicks = float_sum (map Clicks all),
         Campaign.Conversions = float_sum (map Conversions all),
         Campaign.Spend = float_sum (map Spend all),
         Campaign.Revenue = float_sum (map Revenue all) \<rparr>
   \<and> ROAS (totalMetrics [computeMetrics skew_A, computeMetrics skew_B]) = float64_of 1.04
   \<and> fdiv (fadd (ROAS (computeMetrics skew_A)) (ROAS (computeMetrics skew_B))) (Finite 2)
       = Finite 3"
proof -
  have "totalMetrics all =
     computeMetrics
       \<lparr> Campaign.Name = ''TOTAL'',
         Campaign.Impressions = float_sum (map Impressions all),
         Campaign.Clicks = float_sum (map Clicks all),
         Campaign.Conversions = float_sum (map Conversions all),
         Campaign.Spend = float_sum (map Spend all),
         Campaign.Revenue = float_sum (map Revenue all) \<rparr>"
    by (simp add: totalMetrics_def foldl_total_step total_zero_def float_sum_def)
  moreover have "ROAS (totalMetrics [computeMetrics skew_A, computeMetrics skew_B])
      = float64_of 1.04"
    unfolding skew_metrics by (simp add: totalMetrics_def total_zero_def total_step_def metrics_eval)
  moreover have "fdiv (fadd (ROAS (computeMetrics skew_A)) (ROAS (computeMetrics skew_B)))
      (Finite 2) = Finite 3"
    unfolding skew_metrics by (simp add: float_eval)
  ultimately show ?thesis by blast
qed

section \<open>The filter\<close>

lemma filter_loop_filter:
  "filter_loop minROAS cs all =
     all @ filter (\<lambda>m. fge (ROAS m) minROAS) (map computeMetrics cs)"
  by (induction cs arbitrary: all) (simp_all add: Let_def)

lemma fge_zero:
  "fge x (Finite 0) =
     (case x of Finite q \<Rightarrow> 0 \<le> q | NegZero \<Rightarrow> True | Infinity s \<Rightarrow> \<not> s | NaN \<Rightarrow> False)"
  by (cases x)
    (auto simp: fge_def fle_def flt_def feq_def is_finite_def fval_def sign_bit_def)

lemma nonneg_make_finite: "0 \<le> r \<Longrightarrow> (s \<Longrightarrow> r = 0) \<Longrightarrow> fge (make_finite s r) (Finite 0)"
  by (auto simp: fge_zero make_finite_def)

lemma nonneg_round:
  assumes "0 \<le> q" and "s \<Longrightarrow> q = 0"
  shows "fge (float64_round s q) (Finite 0)"
proof (cases "q = 0")
  case True
  then show ?thesis
    by (simp add: float64_round_def nonneg_make_finite)
next
  case False
  then have s: "\<not> s"
    using assms(2) by blast
  from float64_round_cases [OF assms(1), of s]
  show ?thesis
    using s by (auto simp: fge_zero make_finite_def)
qed

lemma nonneg_fdiv:
  assumes "nonneg_finite a" and "nonneg_finite b" and "\<not> is_zero b"
  shows "fge (fdiv a b) (Finite 0)"
proof -
  obtain q where b: "b = Finite q" "0 < q"
    using assms(2,3) by (cases b) (auto simp: nonneg_finite_def fge_zero is_finite_def is_zero_def)
  have a: "0 \<le> fval a" "sign_bit a \<Longrightarrow> magnitude a = 0" "is_finite a"
    using assms(1)
    by (cases a; simp add: nonneg_finite_def fge_zero is_finite_def fval_def sign_bit_def
        magnitude_def)+
  have "fdiv a b = float64_round (sign_bit a) (magnitude a / q)"
    using a(3) b by (auto simp: fdiv_def is_finite_def is_zero_def sign_bit_def magnitude_def fval_def)
  moreover have "fge (float64_round (sign_bit a) (magnitude a / q)) (Finite 0)"
    using a b by (intro nonneg_round) (simp_all add: magnitude_def)
  ultimately show ?thesis by simp
qed

lemma nonneg_safe: "nonneg_finite a \<Longrightarrow> nonneg_finite b \<Longrightarrow> fge (safe a b) (Finite 0)"
  by (simp add: safe_def feq_zero nonneg_fdiv) (simp add: fge_zero)

lemma nonneg_fmul_100: "fge x (Finite 0) \<Longrightarrow> fge (fmul x (Finite 100)) (Finite 0)"
proof (cases x)
  case (Finite q)
  assume "fge x (Finite 0)"
  then have "0 \<le> q"
    using Finite by (simp add: fge_zero)
  then have "fmul x (Finite 100) = float64_round False (q * 100)"
    using Finite by (simp add: fmul_def is_finite_def sign_bit_def magnitude_def fval_def)
  then show ?thesis
    using \<open>0 \<le> q\<close> by (simp add: nonneg_round)
next
  case NegZero
  then have "fmul x (Finite 100) = float64_round True 0"
    by (simp add: fmul_def is_finite_def sign_bit_def magnitude_def fval_def)
  then show ?thesis
    by (simp add: nonneg_round)
qed (simp_all add: fge_zero fmul_def is_finite_def is_zero_def sign_bit_def)

lemma nonneg_math_Round: "fge x (Finite 0) \<Longrightarrow> fge (math_Round x) (Finite 0)"
proof (cases x)
  case (Finite q)
  assume "fge x (Finite 0)"
  then have "0 \<le> q"
    using Finite by (simp add: fge_zero)
  then have "math_Round x = make_finite False (of_int \<lfloor>q + 1 / 2\<rfloor>)"
    using Finite by (simp add: math_Round_def)
  moreover have "0 \<le> \<lfloor>q + 1 / 2\<rfloor>"
    using \<open>0 \<le> q\<close> by linarith
  ultimately show ?thesis
    by (simp add: nonneg_make_finite)
qed (simp_all add: math_Round_def)

lemma nonneg_fdiv_100: "fge x (Finite 0) \<Longrightarrow> fge (fdiv x (Finite 100)) (Finite 0)"
proof (cases x)
  case (Finite q)
  assume "fge x (Finite 0)"
  then have "0 \<le> q"
    using Finite by (simp add: fge_zero)
  then have "fdiv x (Finite 100) = float64_round False (q / 100)"
    using Finite
    by (simp add: fdiv_def is_finite_def is_zero_def sign_bit_def magnitude_def fval_def)
  then show ?thesis
    using \<open>0 \<le> q\<close> by (simp add: nonneg_round)
next
  case NegZero
  then have "fdiv x (Finite 100) = float64_round True 0"
    by (simp add: fdiv_def is_finite_def is_zero_def sign_bit_def magnitude_def fval_def)
  then show ?thesis
    by (simp add: nonneg_round)
qed (simp_all add: fge_zero fdiv_def is_finite_def is_zero_def sign_bit_def)

lemma nonneg_round2: "fge x (Finite 0) \<Longrightarrow> fge (round2 x) (Finite 0)"
  by (simp add: round2_def nonneg_fmul_100 nonneg_math_Round nonneg_fdiv_100)

lemma ROAS_nonneg: "nonneg_measures c \<Longrightarrow> fge (ROAS (computeMetrics c)) (Finite 0)"
  by (simp add: computeMetrics_def nonneg_measures_def nonneg_round2 nonneg_safe)

text \<open>
  C5, as the code has it. For every threshold, the filter keeps exactly the computed
  records with ROAS \<^verbatim>\<open>>=\<close> minROAS (a record with ROAS equal to the threshold is kept), in
  their input order; with the default threshold 0 every record of campaigns with finite
  measures that are not negative is kept.
\<close>

theorem C5_filter_min_roas:
  "filter_loop minROAS cs [] = filter (\<lambda>m. fge (ROAS m) minROAS) (map computeMetrics cs)
   \<and> ((\<forall>c \<in> set cs. nonneg_measures c)
        \<longrightarrow> filter_loop (Finite 0) cs [] = map computeMetrics cs)"
  by (simp add: filter_loop_filter ROAS_nonneg)

theorem C5_filter_min_roas_witness:
  "nonneg_measures skew_A \<and> nonneg_measures skew_B \<and> nonneg_measures sample_brand
   \<and> filter_loop (Finite 0) [skew_A, skew_B, sample_brand] []
       = [computeMetrics skew_A, computeMetrics skew_B, computeMetrics sample_brand]
   \<and> filter_loop (Finite 5) [skew_A, skew_B, sample_brand] [] = [computeMetrics skew_B]
   \<and> ROAS (computeMetrics skew_B) = Finite 5"
proof -
  have v: "nonneg_measures skew_A" "nonneg_measures skew_B" "nonneg_measures sample_brand"
    by (simp_all add: nonneg_measures_def nonneg_finite_def skew_A_def skew_B_def
        sample_brand_def fge_zero is_finite_def)
  have r: "ROAS (computeMetrics skew_A) = Finite 1" "ROAS (computeMetrics skew_B) = Finite 5"
    "ROAS (computeMetrics sample_brand) = float64_of 4.97"
    by (simp_all add: skew_metrics sample_brand_metrics)
  have k: "\<not> fge (ROAS (computeMetrics skew_A)) (Finite 5)"
    "fge (ROAS (computeMetrics skew_B)) (Finite 5)"
    "\<not> fge (ROAS (computeMetrics sample_brand)) (Finite 5)"
    by (simp_all add: r float_eval)
  have every: "\<forall>c \<in> set [skew_A, skew_B, sample_brand]. nonneg_measures c"
    using v by simp
  have "filter_loop (Finite 5) [skew_A, skew_B, sample_brand] []
      = filter (\<lambda>m. fge (ROAS m) (Finite 5)) (map computeMetrics [skew_A, skew_B, sample_brand])"
    using C5_filter_min_roas [of "Finite 5" "[skew_A, skew_B, sample_brand]"] by blast
  then have "filter_loop (Finite 5) [skew_A, skew_B, sample_brand] [] = [computeMetrics skew_B]"
    by (simp add: k)
  moreover have "filter_loop (Finite 0) [skew_A, skew_B, sample_brand] []
       = map computeMetrics [skew_A, skew_B, sample_brand]"
    using C5_filter_min_roas [of "Finite 0" "[skew_A, skew_B, sample_brand]"] every by blast
  ultimately show ?thesis using v r by simp
qed

section \<open>Loading\<close>

lemmas parse_eval =
  parseFloat_def strconv_ParseFloat_def special_def special_inf_def readFloat_def
  underscoreOK_def is_exp_char_def pow10_def strings_TrimSpace_def is_space_def is_digit_def
  digit_val_def is_hex_letter_def hex_letter_val_def lower_char_def float_eval

lemmas load_eval =
  loadCSV_def sample_header_def requiredCols_def strings_ToLower_def lower_char_def
  read_row_def parse_def index_def lookup_def parse_eval

lemma find_append:
  "List.find P (xs @ ys) = (case List.find P xs of None \<Rightarrow> List.find P ys | Some x \<Rightarrow> Some x)"
  by (induction xs) simp_all

lemma find_map: "List.find P (map f xs) = map_option f (List.find (P \<circ> f) xs)"
  by (induction xs) simp_all

lemma header_loop_range:
  "header_loop hs i m col = Some k \<Longrightarrow> m col = Some k \<or> (i \<le> k \<and> k < i + length hs)"
proof (induction hs arbitrary: i m)
  case Nil
  then show ?case by simp
next
  case (Cons h hs)
  from Cons.IH [OF Cons.prems [simplified]]
  show ?case by (auto split: if_splits)
qed

lemma lookup_in_header:
  "header_loop hdr 0 Map.empty col \<noteq> None
     \<Longrightarrow> lookup (header_loop hdr 0 Map.empty) col < length hdr"
  using header_loop_range [of hdr 0 Map.empty col] by (auto simp: lookup_def)

lemma missing_col_None:
  "missing_col header cols = None \<Longrightarrow> col \<in> set cols \<Longrightarrow> header col \<noteq> None"
  by (induction cols) (auto split: if_splits)

lemma read_row_char:
  assumes "wide header row"
  shows "read_row header i row =
     (case List.find (unparseable header row) numericCols of
        Some col \<Rightarrow> Inl (RowColumnError (i + 2) col)
      | None \<Rightarrow> Inr (to_campaign header row))"
  using assms
  by (auto simp: wide_def requiredCols_def read_row_def parse_def index_def numericCols_def
      unparseable_def to_campaign_def split: option.splits)

lemma cells_Cons:
  "cells n (row # data) = map (\<lambda>col. (n, row, col)) numericCols @ cells (Suc n) data"
  by (simp add: cells_def)

lemma rows_loop_char:
  assumes "\<forall>row \<in> set data. row \<noteq> [] \<and> wide header row"
  shows "rows_loop header i data acc =
     (case List.find (\<lambda>(n, row, col). unparseable header row col) (cells (i + 2) data) of
        Some (n, row, col) \<Rightarrow> Inl (RowColumnError n col)
      | None \<Rightarrow> Inr (acc @ map (to_campaign header) data))"
  using assms
proof (induction data arbitrary: i acc)
  case Nil
  then show ?case by (simp add: cells_def)
next
  case (Cons row data)
  have w: "wide header row" "row \<noteq> []"
    using Cons.prems by auto
  have rest: "\<forall>row \<in> set data. row \<noteq> [] \<and> wide header row"
    using Cons.prems by auto
  show ?case
  proof (cases "List.find (unparseable header row) numericCols")
    case None
    then show ?thesis
      using w Cons.IH [OF rest, of "i + 1"]
      by (simp add: cells_Cons find_append find_map comp_def read_row_char
          cong: option.case_cong)
  next
    case (Some col)
    then show ?thesis
      using w by (simp add: cells_Cons find_append find_map comp_def read_row_char)
  qed
qed

text \<open>
  C7, as the code has it. A file of a header and at least one data row, every row with
  as many fields as the header (what the CSV reader returns): loading fails with the
  first required column that is absent; otherwise it fails, with no campaign returned,
  as soon as a numeric cell is not parseable as a number, and the error carries the row
  number and the column name of the first such cell in reading order; otherwise it
  returns the campaign of every row. A signed number is parseable, so a negative
  measure is loaded as it is.
\<close>

theorem C7_load_fails_at_first_unparseable_cell:
  assumes "data \<noteq> []" and "\<forall>row \<in> set data. length row = length hdr"
    and "header = header_loop hdr 0 Map.empty"
  shows "loadCSV (Rows (hdr # data)) =
     (case missing_col header requiredCols of
        Some col \<Rightarrow> Inl (MissingRequiredColumn col)
      | None \<Rightarrow>
          (case first_failure header data of
             Some (n, col) \<Rightarrow> Inl (RowColumnError n col)
           | None \<Rightarrow> Inr (map (to_campaign header) data)))"
proof (cases "missing_col header requiredCols")
  case (Some col)
  moreover have "\<not> length (hdr # data) < 2"
    using assms(1) by (cases data) simp_all
  ultimately show ?thesis
    using assms(3) by (simp add: loadCSV_def Let_def)
next
  case None
  have "lookup header col < length hdr" if "col \<in> set requiredCols" for col
    using that None unfolding assms(3) by (intro lookup_in_header) (rule missing_col_None)
  then have "\<forall>row \<in> set data. row \<noteq> [] \<and> wide header row"
    using assms(2) by (fastforce simp: wide_def list_all_iff requiredCols_def)
  from rows_loop_char [OF this, of 0 "[]"]
  have "rows_loop header 0 data [] =
     (case List.find (\<lambda>(n, row, col). unparseable header row col) (cells 2 data) of
        Some (n, row, col) \<Rightarrow> Inl (RowColumnError n col)
      | None \<Rightarrow> Inr (map (to_campaign header) data))"
    by (simp add: numeral_2_eq_2 cong: option.case_cong)
  then have "rows_loop header 0 data [] =
     (case first_failure header data of
        Some (n, col) \<Rightarrow> Inl (RowColumnError n col)
      | None \<Rightarrow> Inr (map (to_campaign header) data))"
    unfolding first_failure_def by (simp split: option.splits prod.splits)
  moreover have "\<not> length (hdr # data) < 2"
    using assms(1) by (cases data) simp_all
  ultimately show ?thesis
    using None assms(3) by (simp add: loadCSV_def Let_def)
qed

theorem C7_load_fails_at_first_unparseable_cell_witness:
  "tl broken_rows \<noteq> []
   \<and> list_all (\<lambda>row. length row = length sample_header) (tl broken_rows)
   \<and> loadCSV (Rows broken_rows) = Inl (RowColumnError 3 ''clicks'')"
proof -
  define header where "header = header_loop sample_header 0 Map.empty"
  have shape: "tl broken_rows \<noteq> []" "\<forall>row \<in> set (tl broken_rows). length row = length sample_header"
    by (simp_all add: broken_rows_def sample_header_def)
  have rows: "broken_rows = sample_header # tl broken_rows"
    by (simp add: broken_rows_def)
  have present: "missing_col header requiredCols = None"
    by (simp add: header_def load_eval)
  have first: "first_failure header (tl broken_rows) = Some (3, ''clicks'')"
    by (simp add: header_def first_failure_def cells_def numericCols_def unparseable_def
        broken_rows_def enumerate_eq_zip load_eval)
  have "loadCSV (Rows (sample_header # tl broken_rows)) = Inl (RowColumnError 3 ''clicks'')"
    using C7_load_fails_at_first_unparseable_cell [OF shape header_def] present first by simp
  then show ?thesis
    using shape rows by (simp add: list_all_iff)
qed

theorem C7_negative_measure_loads_counterexample:
  "loadCSV (Rows negative_rows) =
     Inr [\<lparr> Campaign.Name = ''Promo'', Campaign.Impressions = Finite (- 5),
            Campaign.Clicks = Finite 10, Campaign.Conversions = Finite 1,
            Campaign.Spend = Finite 20, Campaign.Revenue = Finite 40 \<rparr>]"
  by (simp add: negative_rows_def load_eval)

section \<open>Runs of the program\<close>

lemma sortLess_default: "sortLess ''roas'' x y = fgt (ROAS x) (ROAS y)"
  by (simp add: sortLess_def strings_ToLower_def lower_char_def)

lemma zero_conversion_load:
  "loadCSV (Rows zero_conversion_rows) =
     Inr [\<lparr> Campaign.Name = ''A'', Campaign.Impressions = Finite 1000,
            Campaign.Clicks = Finite 100, Campaign.Conversions = Finite 0,
            Campaign.Spend = Finite 100, Campaign.Revenue = Finite 500 \<rparr>,
          \<lparr> Campaign.Name = ''B'', Campaign.Impressions = Finite 1000,
            Campaign.Clicks = Finite 100, Campaign.Conversions = Finite 10,
            Campaign.Spend = Finite 100, Campaign.Revenue = Finite 200 \<rparr>]"
  by (simp add: zero_conversion_rows_def load_eval)

lemma zero_conversion_metrics:
  "computeMetrics
     \<lparr> Campaign.Name = ''A'', Campaign.Impressions = Finite 1000, Campaign.Clicks = Finite 100,
       Campaign.Conversions = Finite 0, Campaign.Spend = Finite 100,
       Campaign.Revenue = Finite 500 \<rparr> = metrics_A"
  "computeMetrics
     \<lparr> Campaign.Name = ''B'', Campaign.Impressions = Finite 1000, Campaign.Clicks = Finite 100,
       Campaign.Conversions = Finite 10, Campaign.Spend = Finite 100,
       Campaign.Revenue = Finite 200 \<rparr> = metrics_B"
  by (simp_all add: metrics_A_def metrics_B_def metrics_eval)

lemma zero_conversion_ROAS: "ROAS metrics_A = Finite 5" "ROAS metrics_B = Finite 2"
  by (simp_all add: metrics_A_def metrics_B_def)

lemma zero_conversion_filter:
  "fge (Finite 5) (Finite 0)" "fge (Finite 2) (Finite 0)"
  "fge (Finite 5) (Finite 3)" "\<not> fge (Finite 2) (Finite 3)"
  by (simp_all add: float_eval)

lemma sort_A_B: "sort_Slice (sortLess ''roas'') [metrics_A, metrics_B] = [metrics_A, metrics_B]"
  by (simp add: sort_Slice_def pdqsort_func.simps insertionSort_func_def insertion_inner.simps
      Less_def Swap_def sortLess_default metrics_A_def metrics_B_def float_eval)

lemma sort_single: "sort_Slice lt [x] = [x]"
  by (simp add: sort_Slice_def pdqsort_func.simps insertionSort_func_def)

lemma sort_empty: "sort_Slice lt [] = []"
  by (simp add: sort_Slice_def pdqsort_func.simps insertionSort_func_def)

text \<open>
  C4. The scan for the lowest CPA starts from the first record of the table without
  looking at its conversions. On the file with campaign A (0 conversions, spend 100,
  revenue 500) and campaign B (10 conversions, spend 100, revenue 200), sorted by the
  default key, A is first and the line \<^verbatim>\<open>Lowest CPA\<close> names A with its forced CPA 0,
  although B is the only campaign with conversions.
\<close>

theorem C4_lowest_cpa_selects_zero_conversion_record:
  "main (\<lambda>path. Rows zero_conversion_rows)
     \<lparr> file_flag = Some ''campaigns.csv'', sort_flag = None, min_roas_flag = None \<rparr> =
   Returns
     \<lparr> campaign_count = 2, sorted_by = ''roas'', table = [metrics_A, metrics_B],
       summary = totalMetrics [metrics_A, metrics_B],
       best_roas = Some (''A'', Finite 5), lowest_cpa = Some (''A'', Finite 0) \<rparr>
   \<and> Conversions metrics_A = Finite 0 \<and> Conversions metrics_B = Finite 10
   \<and> CPA metrics_B = Finite 10"
proof -
  have "lowestCPA [metrics_A, metrics_B] = (''A'', Finite 0)"
    by (simp add: lowestCPA_def metrics_A_def metrics_B_def float_eval)
  moreover have "Name metrics_A = ''A''"
    by (simp add: metrics_A_def)
  moreover have "Conversions metrics_A = Finite 0 \<and> Conversions metrics_B = Finite 10
      \<and> CPA metrics_B = Finite 10"
    by (simp add: metrics_A_def metrics_B_def)
  ultimately show ?thesis
    by (simp add: main_def Let_def zero_conversion_load zero_conversion_metrics
        zero_conversion_ROAS zero_conversion_filter sort_A_B strings_ToLower_def lower_char_def)
qed

subsection \<open>A file without data rows\<close>

lemma rows_loop_not_empty:
  assumes "\<forall>row \<in> set data. row \<noteq> []" and "rows_loop header i data acc = Inr campaigns"
    and "data \<noteq> [] \<or> acc \<noteq> []"
  shows "campaigns \<noteq> []"
  using assms
proof (induction data arbitrary: i acc)
  case Nil
  then show ?case by simp
next
  case (Cons row data)
  have row: "row \<noteq> []"
    using Cons.prems(1) by simp
  show ?case
  proof (cases "read_row header i row")
    case (Inl e)
    then show ?thesis
      using Cons.prems(2) row by simp
  next
    case (Inr c)
    then have "rows_loop header (i + 1) data (acc @ [c]) = Inr campaigns"
      using Cons.prems(2) row by simp
    then show ?thesis
      using Cons.IH [of "i + 1" "acc @ [c]"] Cons.prems(1) by simp
  qed
qed

lemma loadCSV_not_empty:
  assumes "csv_records src" and "loadCSV src = Inr campaigns"
  shows "campaigns \<noteq> []"
proof (cases src)
  case (Rows rows)
  have long: "\<not> length rows < 2"
    using assms(2) Rows by (auto simp: loadCSV_def split: if_splits)
  then have "drop 1 rows \<noteq> []"
    by simp
  moreover have "\<forall>row \<in> set (drop 1 rows). row \<noteq> []"
    using assms(1) Rows by (auto simp: csv_records_def list_all_iff dest: in_set_dropD)
  moreover have "rows_loop (header_loop (rows ! 0) 0 Map.empty) 0 (drop 1 rows) [] = Inr campaigns"
    using assms(2) Rows long by (auto simp: loadCSV_def Let_def split: option.splits)
  ultimately show ?thesis
    using rows_loop_not_empty by blast
qed (use assms(2) in \<open>simp_all add: loadCSV_def\<close>)

text \<open>
  C8, as the code has it. On the records that the CSV reader returns, a load that
  succeeds has read at least one campaign, and the program never ends with the warning
  for an empty result. (A file without data rows is a load error, as the run on a file
  of a header alone shows below.)
\<close>

theorem C8_empty_result_is_not_reached:
  assumes "csv_records (fs path)" and "file_flag flags = Some path"
  shows "main fs flags \<noteq> Exit 0 NoCampaignRows
    \<and> (\<forall>campaigns. loadCSV (fs path) = Inr campaigns \<longrightarrow> campaigns \<noteq> [])"
proof -
  have l: "campaigns \<noteq> []" if "loadCSV (fs path) = Inr campaigns" for campaigns
    using loadCSV_not_empty [OF assms(1) that] .
  then have "main fs flags \<noteq> Exit 0 NoCampaignRows"
    using assms(2) by (auto simp: main_def Let_def split: sum.splits)
  then show ?thesis
    using l by blast
qed

theorem C8_empty_result_is_not_reached_witness:
  "csv_records (Rows zero_conversion_rows)
   \<and> main (\<lambda>path. Rows zero_conversion_rows)
       \<lparr> file_flag = Some ''campaigns.csv'', sort_flag = None, min_roas_flag = None \<rparr>
     \<noteq> Exit 0 NoCampaignRows
   \<and> length (projr (loadCSV (Rows zero_conversion_rows))) = 2"
proof -
  have r: "csv_records (Rows zero_conversion_rows)"
    by (simp add: csv_records_def zero_conversion_rows_def sample_header_def)
  from C8_empty_result_is_not_reached
    [of "\<lambda>path. Rows zero_conversion_rows" "''campaigns.csv''"
      "\<lparr> file_flag = Some ''campaigns.csv'', sort_flag = None, min_roas_flag = None \<rparr>"] r
  show ?thesis
    by (simp add: zero_conversion_load)
qed

text \<open>
  A file of a header alone is what the CSV reader returns for a file without data rows.
  It does not load: the program reports the error and ends with status 1, not with the
  warning and status 0.
\<close>

theorem C8_header_only_file_is_fatal_counterexample:
  "csv_records (Rows [sample_header])
   \<and> loadCSV (Rows [sample_header]) = Inl NoDataRow
   \<and> main (\<lambda>path. Rows [sample_header])
       \<lparr> file_flag = Some ''campaigns.csv'', sort_flag = None, min_roas_flag = None \<rparr>
     = Exit 1 (LoadFailed NoDataRow)"
  by (simp add: main_def loadCSV_def csv_records_def sample_header_def)

subsection \<open>The two selections\<close>

text \<open>
  C10. Whenever the program prints its report, the lines \<^verbatim>\<open>Best ROAS\<close> and
  \<^verbatim>\<open>Lowest CPA\<close> are both printed if the table has more than one record and are both
  absent if it has none or one.
\<close>

theorem C10_selections_need_two_records:
  "main fs flags = Returns r \<Longrightarrow>
     (best_roas r \<noteq> None) = (length (table r) > 1)
     \<and> (lowest_cpa r \<noteq> None) = (length (table r) > 1)"
  by (auto simp: main_def Let_def split: if_splits sum.splits)

theorem C10_selections_need_two_records_witness:
  "main (\<lambda>path. Rows zero_conversion_rows)
     \<lparr> file_flag = Some ''campaigns.csv'', sort_flag = None, min_roas_flag = Some (Finite 3) \<rparr> =
   Returns
     \<lparr> campaign_count = 1, sorted_by = ''roas'', table = [metrics_A],
       summary = totalMetrics [metrics_A], best_roas = None, lowest_cpa = None \<rparr>
   \<and> (best_roas
         \<lparr> campaign_count = 1, sorted_by = ''roas'', table = [metrics_A],
           summary = totalMetrics [metrics_A], best_roas = None, lowest_cpa = None \<rparr> \<noteq> None)
     = (length [metrics_A] > 1)"
proof -
  have run: "main (\<lambda>path. Rows zero_conversion_rows)
     \<lparr> file_flag = Some ''campaigns.csv'', sort_flag = None, min_roas_flag = Some (Finite 3) \<rparr> =
   Returns
     \<lparr> campaign_count = 1, sorted_by = ''roas'', table = [metrics_A],
       summary = totalMetrics [metrics_A], best_roas = None, lowest_cpa = None \<rparr>"
    by (simp add: main_def Let_def zero_conversion_load zero_conversion_metrics
        zero_conversion_ROAS zero_conversion_filter sort_single strings_ToLower_def
        lower_char_def)
  from C10_selections_need_two_records [OF run] run show ?thesis
    by simp
qed

subsection \<open>A negative measure\<close>

lemma refund_load:
  "loadCSV (Rows refund_rows) =
     Inr [\<lparr> Campaign.Name = ''Refund'', Campaign.Impressions = Finite 1000,
            Campaign.Clicks = Finite 100, Campaign.Conversions = Finite 10,
            Campaign.Spend = Finite 20, Campaign.Revenue = Finite (- 50) \<rparr>]"
  by (simp add: refund_rows_def load_eval)

lemma refund_ROAS:
  "ROAS (computeMetrics
     \<lparr> Campaign.Name = ''Refund'', Campaign.Impressions = Finite 1000,
       Campaign.Clicks = Finite 100, Campaign.Conversions = Finite 10,
       Campaign.Spend = Finite 20, Campaign.Revenue = Finite (- 50) \<rparr>) = Finite (- 2.5)"
  by (simp add: metrics_eval)

text \<open>
  A row with a negative revenue loads, its ROAS is negative, and the default threshold 0
  drops it: the report of the run has no campaign.
\<close>

theorem C5_negative_roas_is_dropped_counterexample:
  "main (\<lambda>path. Rows refund_rows)
     \<lparr> file_flag = Some ''campaigns.csv'', sort_flag = None, min_roas_flag = None \<rparr> =
   Returns
     \<lparr> campaign_count = 0, sorted_by = ''roas'', table = [], summary = totalMetrics [],
       best_roas = None, lowest_cpa = None \<rparr>
   \<and> length (projr (loadCSV (Rows refund_rows))) = 1
   \<and> map (ROAS \<circ> computeMetrics) (projr (loadCSV (Rows refund_rows))) = [Finite (- 2.5)]
   \<and> filter_loop (Finite 0) (projr (loadCSV (Rows refund_rows))) [] = []"
proof -
  have "\<not> fge (Finite (- 2.5)) (Finite 0)"
    by (simp add: float_eval)
  then show ?thesis
    by (simp add: main_def Let_def refund_load refund_ROAS sort_empty strings_ToLower_def
        lower_char_def)
qed

section \<open>Stability of the sort\<close>

lemma flt_rank: "flt x y \<longleftrightarrow> x \<noteq> NaN \<and> y \<noteq> NaN \<and> rank x < rank y"
  by (cases x; cases y) (auto simp: flt_def rank_def is_finite_def fval_def sign_bit_def)

lemma tie_metrics:
  "computeMetrics (tie n 0) =
     \<lparr> Name = n, CTR = Finite 0, CVR = Finite 0, CPC = Finite 0, CPA = Finite 0,
       ROAS = Finite 0, RevPerConv = Finite 0, Spend = Finite 1, Revenue = Finite 0,
       Impressions = Finite 0, Clicks = Finite 0, Conversions = Finite 0 \<rparr>"
  "computeMetrics (tie n 1) =
     \<lparr> Name = n, CTR = Finite 0, CVR = Finite 0, CPC = Finite 0, CPA = Finite 0,
       ROAS = Finite 1, RevPerConv = Finite 0, Spend = Finite 1, Revenue = Finite 1,
       Impressions = Finite 0, Clicks = Finite 0, Conversions = Finite 0 \<rparr>"
  by (simp_all add: tie_def metrics_eval)

lemma ROAS_tie:
  "ROAS (computeMetrics (tie n 0)) = Finite 0" "ROAS (computeMetrics (tie n 1)) = Finite 1"
  by (simp_all add: tie_metrics)

lemma Name_tie: "Name (computeMetrics (tie n r)) = n"
  by (simp add: computeMetrics_def tie_def)

lemma tie_filter: "filter_loop (Finite 0) tie_campaigns [] = map computeMetrics tie_campaigns"
proof -
  have "fge (Finite 0) (Finite 0)" "fge (Finite 1) (Finite 0)"
    by (simp_all add: float_eval)
  then show ?thesis
    by (simp add: tie_campaigns_def ROAS_tie)
qed

lemma tie_sort:
  "sort_Slice (sortLess ''roas'') (map computeMetrics tie_campaigns) =
     map computeMetrics
       [tie ''c06'' 1, tie ''c01'' 1, tie ''c02'' 1, tie ''c03'' 1, tie ''c04'' 1,
        tie ''c05'' 1, tie ''c07'' 1, tie ''c08'' 1, tie ''c09'' 1, tie ''c10'' 1,
        tie ''c11'' 1, tie ''c12'' 1, tie ''c00'' 0]"
  unfolding tie_campaigns_def list.map tie_metrics by code_simp

text \<open>
  C3. Thirteen campaigns in the order c00, c01, ..., c12, the first with ROAS 0 and the
  others with ROAS 1, all kept by the default filter. Sorted by the default key, the
  twelve campaigns with equal ROAS come out in the order c06, c01, ..., c05, c07, ..., c12:
  c06 has moved before c01.
\<close>

theorem C3_sort_reorders_equal_keys_counterexample:
  "map Name (filter_loop (Finite 0) tie_campaigns []) =
     [''c00'', ''c01'', ''c02'', ''c03'', ''c04'', ''c05'', ''c06'', ''c07'', ''c08'', ''c09'',
      ''c10'', ''c11'', ''c12'']
   \<and> map ROAS (filter_loop (Finite 0) tie_campaigns []) =
     [Finite 0, Finite 1, Finite 1, Finite 1, Finite 1, Finite 1, Finite 1, Finite 1, Finite 1,
      Finite 1, Finite 1, Finite 1, Finite 1]
   \<and> map Name (sort_Slice (sortLess ''roas'') (filter_loop (Finite 0) tie_campaigns [])) =
     [''c06'', ''c01'', ''c02'', ''c03'', ''c04'', ''c05'', ''c07'', ''c08'', ''c09'', ''c10'',
      ''c11'', ''c12'', ''c00'']
   \<and> \<not> stable_for (\<lambda>m. rank (ROAS m)) (filter_loop (Finite 0) tie_campaigns [])
         (sort_Slice (sortLess ''roas'') (filter_loop (Finite 0) tie_campaigns []))"
proof -
  have names: "map Name (filter_loop (Finite 0) tie_campaigns []) =
     [''c00'', ''c01'', ''c02'', ''c03'', ''c04'', ''c05'', ''c06'', ''c07'', ''c08'', ''c09'',
      ''c10'', ''c11'', ''c12'']"
    unfolding tie_filter by (simp add: tie_campaigns_def Name_tie)
  have keys: "map ROAS (filter_loop (Finite 0) tie_campaigns []) =
     [Finite 0, Finite 1, Finite 1, Finite 1, Finite 1, Finite 1, Finite 1, Finite 1, Finite 1,
      Finite 1, Finite 1, Finite 1, Finite 1]"
    unfolding tie_filter by (simp add: tie_campaigns_def ROAS_tie)
  have sorted_names:
    "map Name (sort_Slice (sortLess ''roas'') (filter_loop (Finite 0) tie_campaigns [])) =
     [''c06'', ''c01'', ''c02'', ''c03'', ''c04'', ''c05'', ''c07'', ''c08'', ''c09'', ''c10'',
      ''c11'', ''c12'', ''c00'']"
    unfolding tie_filter tie_sort by (simp add: Name_tie)
  have "filter (\<lambda>x. rank (ROAS x) = (0, 1))
        (sort_Slice (sortLess ''roas'') (filter_loop (Finite 0) tie_campaigns []))
      \<noteq> filter (\<lambda>x. rank (ROAS x) = (0, 1)) (filter_loop (Finite 0) tie_campaigns [])"
  proof
    assume "filter (\<lambda>x. rank (ROAS x) = (0, 1))
        (sort_Slice (sortLess ''roas'') (filter_loop (Finite 0) tie_campaigns []))
      = filter (\<lambda>x. rank (ROAS x) = (0, 1)) (filter_loop (Finite 0) tie_campaigns [])"
    then have "map Name (filter (\<lambda>x. rank (ROAS x) = (0, 1))
          (sort_Slice (sortLess ''roas'') (filter_loop (Finite 0) tie_campaigns [])))
      = map Name (filter (\<lambda>x. rank (ROAS x) = (0, 1))
          (filter_loop (Finite 0) tie_campaigns []))"
      by simp
    then show False
      unfolding tie_filter tie_sort by (simp add: tie_campaigns_def ROAS_tie Name_tie rank_def)
  qed
  then have "\<not> stable_for (\<lambda>m. rank (ROAS m)) (filter_loop (Finite 0) tie_campaigns [])
         (sort_Slice (sortLess ''roas'') (filter_loop (Finite 0) tie_campaigns []))"
    unfolding stable_for_def by blast
  with names keys sorted_names show ?thesis by blast
qed

subsection \<open>Insertion sort keeps equal keys in order\<close>

lemma length_Swap [simp]: "length (Swap d i j) = length d"
  by (simp add: Swap_def)

lemma Swap_middle:
  "length pre = n \<Longrightarrow> Swap (pre @ x # y # post) (Suc n) n = pre @ y # x # post"
  by (simp add: Swap_def nth_append list_update_append)

lemma adjacent_split:
  assumes "j < length d" and "0 < j"
  obtains pre post where "d = pre @ d ! (j - 1) # d ! j # post" and "length pre = j - 1"
proof
  show "d = take (j - 1) d @ d ! (j - 1) # d ! j # drop (Suc j) d"
    using assms
    by (metis Cons_nth_drop_Suc Suc_diff_1 Suc_lessD append_take_drop_id)
  show "length (take (j - 1) d) = j - 1"
    using assms by simp
qed

lemma Swap_adjacent_filter:
  assumes "j < length d" and "0 < j" and "key (d ! j) \<noteq> key (d ! (j - 1))"
  shows "filter (\<lambda>x. key x = k) (Swap d j (j - 1)) = filter (\<lambda>x. key x = k) d"
proof -
  define x y where "x = d ! (j - 1)" and "y = d ! j"
  obtain pre post where d: "d = pre @ x # y # post" and l: "length pre = j - 1"
    using adjacent_split [OF assms(1,2)] unfolding x_def y_def by blast
  have j: "j = Suc (j - 1)"
    using assms(2) by simp
  have "Swap (pre @ x # y # post) (Suc (j - 1)) (j - 1) = pre @ y # x # post"
    using l by (rule Swap_middle)
  then have s: "Swap d j (j - 1) = pre @ y # x # post"
    using d j by simp
  have "key y \<noteq> key x"
    using assms(3) by (simp add: x_def y_def)
  then have "filter (\<lambda>x. key x = k) (pre @ y # x # post)
      = filter (\<lambda>x. key x = k) (pre @ x # y # post)"
    by auto
  then show ?thesis
    unfolding s using d by simp
qed

lemma insertion_inner_stable:
  assumes "\<And>x y. lt x y \<Longrightarrow> key x \<noteq> key y" and "j < length d"
  shows "length (insertion_inner lt d a j) = length d
    \<and> filter (\<lambda>x. key x = k) (insertion_inner lt d a j) = filter (\<lambda>x. key x = k) d"
  using assms(2)
proof (induction j arbitrary: d)
  case 0
  have "insertion_inner lt d a 0 = d"
    by (subst insertion_inner.simps) simp
  then show ?case by simp
next
  case (Suc j)
  show ?case
  proof (cases "a < Suc j \<and> Less lt d (Suc j) j")
    case True
    then have e: "insertion_inner lt d a (Suc j) = insertion_inner lt (Swap d (Suc j) j) a j"
      by (subst insertion_inner.simps) simp
    have "key (d ! Suc j) \<noteq> key (d ! j)"
      using True assms(1) by (simp add: Less_def)
    then have "filter (\<lambda>x. key x = k) (Swap d (Suc j) j) = filter (\<lambda>x. key x = k) d"
      using Swap_adjacent_filter [of "Suc j" d key k] Suc.prems by simp
    moreover have "j < length (Swap d (Suc j) j)"
      using Suc.prems by simp
    ultimately show ?thesis
      using Suc.IH [of "Swap d (Suc j) j"] e by simp
  next
    case False
    then have "insertion_inner lt d a (Suc j) = d"
      by (subst insertion_inner.simps) auto
    then show ?thesis by simp
  qed
qed

lemma insertionSort_loop_stable:
  assumes "\<And>x y. lt x y \<Longrightarrow> key x \<noteq> key y" and "\<forall>i \<in> set is. i < length d"
  shows "length (foldl (\<lambda>data i. insertion_inner lt data a i) d is) = length d
    \<and> filter (\<lambda>x. key x = k) (foldl (\<lambda>data i. insertion_inner lt data a i) d is)
        = filter (\<lambda>x. key x = k) d"
  using assms(2)
proof (induction "is" arbitrary: d)
  case Nil
  then show ?case by simp
next
  case (Cons i "is")
  have i: "length (insertion_inner lt d a i) = length d"
    "filter (\<lambda>x. key x = k) (insertion_inner lt d a i) = filter (\<lambda>x. key x = k) d"
    using insertion_inner_stable [of lt key i d a k] assms(1) Cons.prems by auto
  then show ?case
    using Cons.IH [of "insertion_inner lt d a i"] Cons.prems by simp
qed

lemma insertionSort_func_stable:
  assumes "\<And>x y. lt x y \<Longrightarrow> key x \<noteq> key y" and "b \<le> length d"
  shows "stable_for key d (insertionSort_func lt d a b)"
  unfolding stable_for_def insertionSort_func_def
  using insertionSort_loop_stable [of lt key "[a + 1..<b]" d a] assms by simp

lemma sort_Slice_small:
  "length x \<le> 12 \<Longrightarrow> sort_Slice lt x = insertionSort_func lt x 0 (length x)"
  by (simp add: sort_Slice_def Let_def pdqsort_func.simps)

lemma sortLess_keys_differ:
  "sortLess sortBy x y \<Longrightarrow> rank (sort_key sortBy x) \<noteq> rank (sort_key sortBy y)"
  by (auto simp: sortLess_def sort_key_def Let_def fgt_def flt_rank split: if_splits)

text \<open>
  C3, as the code has it. The sort is stable when at most 12 records are sorted: for
  every sort key, records whose sort-key values are \<^verbatim>\<open>==\<close> are then in the output in the
  order they have in the input. (Beyond 12 records the library's quicksort may reorder
  them, as the thirteen campaigns above show.)
\<close>

theorem C3_sort_stable_up_to_12_records:
  "length xs \<le> 12 \<Longrightarrow>
     stable_for (\<lambda>m. rank (sort_key sortBy m)) xs (sort_Slice (sortLess sortBy) xs)"
  using insertionSort_func_stable
    [of "sortLess sortBy" "\<lambda>m. rank (sort_key sortBy m)" "length xs" xs 0]
  by (simp add: sort_Slice_small sortLess_keys_differ)

theorem C3_sort_stable_up_to_12_records_witness:
  "length (map computeMetrics (take 12 tie_campaigns)) \<le> 12
   \<and> stable_for (\<lambda>m. rank (sort_key ''roas'' m)) (map computeMetrics (take 12 tie_campaigns))
       (sort_Slice (sortLess ''roas'') (map computeMetrics (take 12 tie_campaigns)))
   \<and> map Name (sort_Slice (sortLess ''roas'') (map computeMetrics (take 12 tie_campaigns))) =
       [''c01'', ''c02'', ''c03'', ''c04'', ''c05'', ''c06'', ''c07'', ''c08'', ''c09'', ''c10'',
        ''c11'', ''c00'']"
proof -
  have len: "length (map computeMetrics (take 12 tie_campaigns)) \<le> 12"
    by simp
  have t: "take 12 tie_campaigns =
     [tie ''c00'' 0, tie ''c01'' 1, tie ''c02'' 1, tie ''c03'' 1, tie ''c04'' 1,
      tie ''c05'' 1, tie ''c06'' 1, tie ''c07'' 1, tie ''c08'' 1, tie ''c09'' 1,
      tie ''c10'' 1, tie ''c11'' 1]"
    by (simp add: tie_campaigns_def)
  have "sort_Slice (sortLess ''roas'') (map computeMetrics (take 12 tie_campaigns)) =
     map computeMetrics
       [tie ''c01'' 1, tie ''c02'' 1, tie ''c03'' 1, tie ''c04'' 1, tie ''c05'' 1,
        tie ''c06'' 1, tie ''c07'' 1, tie ''c08'' 1, tie ''c09'' 1, tie ''c10'' 1,
        tie ''c11'' 1, tie ''c00'' 0]"
    unfolding t list.map tie_metrics by code_simp
  then have "map Name (sort_Slice (sortLess ''roas'') (map computeMetrics (take 12 tie_campaigns))) =
       [''c01'', ''c02'', ''c03'', ''c04'', ''c05'', ''c06'', ''c07'', ''c08'', ''c09'', ''c10'',
        ''c11'', ''c00'']"
    by (simp add: Name_tie)
  with len C3_sort_stable_up_to_12_records [OF len, of "''roas''"] show ?thesis
    by blast
qed

section \<open>Correctness of the library sort\<close>

subsection \<open>Permutations of a slice\<close>

lemma Less_key_lt [simp]: "Less (key_lt f) d i j = (f (d ! i) < f (d ! j))"
  by (simp add: Less_def key_lt_def)

lemma Swap_nth:
  "i < length d \<Longrightarrow> j < length d \<Longrightarrow>
     Swap d i j ! k = (if k = j then d ! i else if k = i then d ! j else d ! k)"
  by (simp add: Swap_def nth_list_update)

lemma perm_in_refl [simp]: "perm_in a b d d"
  by (simp add: perm_in_def)

lemma perm_in_trans: "perm_in a b d d' \<Longrightarrow> perm_in a b d' d'' \<Longrightarrow> perm_in a b d d''"
  by (simp add: perm_in_def)

lemma perm_in_length: "perm_in a b d d' \<Longrightarrow> length d' = length d"
  by (simp add: perm_in_def)

lemma perm_in_Swap:
  assumes "a \<le> i" "i < b" "a \<le> j" "j < b" "b \<le> length d"
  shows "perm_in a b d (Swap d i j)"
proof -
  have "mset (Swap d i j) = mset d"
    using assms mset_swap [of j d i] by (simp add: Swap_def)
  then show ?thesis
    using assms by (simp add: perm_in_def Swap_def)
qed

lemma perm_in_mono:
  assumes "perm_in a' b' d d'" and "a \<le> a'" and "b' \<le> b"
  shows "perm_in a b d d'"
proof -
  have "take a (take a' d') = take a (take a' d)" "drop (b - b') (drop b' d') = drop (b - b') (drop b' d)"
    using assms(1) by (simp_all add: perm_in_def)
  then have "take a d' = take a d" "drop b d' = drop b d"
    using assms(2,3) by (simp_all add: min_def)
  then show ?thesis
    using assms(1) by (simp add: perm_in_def)
qed

lemma perm_in_nth:
  assumes "perm_in a b d d'" and "k < length d" and "k < a \<or> b \<le> k"
  shows "d' ! k = d ! k"
proof (cases "k < a")
  case True
  have "take a d' ! k = take a d ! k"
    using assms(1) by (simp add: perm_in_def)
  then show ?thesis using True by simp
next
  case False
  then have b: "b \<le> k" using assms(3) by simp
  have l: "length d' = length d"
    using assms(1) by (simp add: perm_in_def)
  have "drop b d' ! (k - b) = drop b d ! (k - b)"
    using assms(1) by (simp add: perm_in_def)
  moreover have "drop b d' ! (k - b) = d' ! k" "drop b d ! (k - b) = d ! k"
    using b assms(2) l by simp_all
  ultimately show ?thesis by simp
qed

lemma all_in_set:
  assumes "b \<le> length d"
  shows "all_in a b P d \<longleftrightarrow> (\<forall>x \<in> set (take (b - a) (drop a d)). P x)"
proof
  assume h: "all_in a b P d"
  show "\<forall>x \<in> set (take (b - a) (drop a d)). P x"
  proof
    fix x assume "x \<in> set (take (b - a) (drop a d))"
    then obtain n where n: "n < length (take (b - a) (drop a d))" "take (b - a) (drop a d) ! n = x"
      by (auto simp: in_set_conv_nth)
    then have "n < b - a" by simp
    then have "x = d ! (a + n)" using n assms by simp
    then show "P x" using h \<open>n < b - a\<close> by (simp add: all_in_def)
  qed
next
  assume h: "\<forall>x \<in> set (take (b - a) (drop a d)). P x"
  show "all_in a b P d"
    unfolding all_in_def
  proof (intro allI impI)
    fix k assume k: "a \<le> k \<and> k < b"
    then have "k - a < b - a" by linarith
    then have "k - a < length (take (b - a) (drop a d))" using assms k by simp
    then have "take (b - a) (drop a d) ! (k - a) \<in> set (take (b - a) (drop a d))"
      by (rule nth_mem)
    moreover have "take (b - a) (drop a d) ! (k - a) = d ! k"
      using k assms \<open>k - a < b - a\<close> by (simp add: nth_take nth_drop)
    ultimately show "P (d ! k)" using h by auto
  qed
qed

lemma perm_in_slice:
  assumes "perm_in a b d d'" and "a \<le> b" and "b \<le> length d"
  shows "mset (take (b - a) (drop a d')) = mset (take (b - a) (drop a d))"
proof -
  have split: "xs = take a xs @ take (b - a) (drop a xs) @ drop b xs" for xs :: "'a list"
    using assms(2) by (metis add_diff_cancel_left' append_take_drop_id drop_drop le_Suc_ex add.commute)
  have "mset d' = mset (take a d') + (mset (take (b - a) (drop a d')) + mset (drop b d'))"
    using split [of d'] by (metis mset_append)
  then have e1: "mset d' = mset (take a d) + (mset (take (b - a) (drop a d')) + mset (drop b d))"
    using assms(1) by (simp add: perm_in_def)
  have e2: "mset d = mset (take a d) + (mset (take (b - a) (drop a d)) + mset (drop b d))"
    using split [of d] by (metis mset_append)
  have "mset d' = mset d"
    using assms(1) by (simp add: perm_in_def)
  then have "mset (take a d) + (mset (take (b - a) (drop a d')) + mset (drop b d))
      = mset (take a d) + (mset (take (b - a) (drop a d)) + mset (drop b d))"
    using e1 e2 by simp
  then show ?thesis by simp
qed

lemma perm_in_all_in:
  assumes "perm_in a b d d'" and "a \<le> b" and "b \<le> length d" and "all_in a b P d"
  shows "all_in a b P d'"
proof -
  have "set (take (b - a) (drop a d')) = set (take (b - a) (drop a d))"
    using perm_in_slice [OF assms(1-3)] by (rule mset_eq_setD)
  then show ?thesis
    using assms all_in_set [of b d a P] all_in_set [of b d' a P] by (simp add: perm_in_def)
qed

subsection \<open>Insertion sort\<close>

lemma sorted_in_empty [simp]: "b \<le> Suc a \<Longrightarrow> sorted_in f a b d"
  by (auto simp: sorted_in_def)

lemma insertion_inner_stop:
  "\<not> (a < j \<and> f (d ! j) < f (d ! (j - 1))) \<Longrightarrow> insertion_inner (key_lt f) d a j = d"
  by (subst insertion_inner.simps) auto

lemma insertion_inner_step:
  "a < j \<Longrightarrow> f (d ! j) < f (d ! (j - 1)) \<Longrightarrow>
     insertion_inner (key_lt f) d a j = insertion_inner (key_lt f) (Swap d j (j - 1)) a (j - 1)"
  by (subst insertion_inner.simps) auto

lemma insertion_inner_sorts:
  assumes "a \<le> n" and "n \<le> j" and "j < length d"
    and "sorted_in f a n d" and "sorted_in f n (Suc j) d"
    and "\<forall>k l. a \<le> k \<and> k < n \<and> n < l \<and> l \<le> j \<longrightarrow> f (d ! k) \<le> f (d ! l)"
  shows "sorted_in f a (Suc j) (insertion_inner (key_lt f) d a n)
    \<and> perm_in a (Suc j) d (insertion_inner (key_lt f) d a n)"
  using assms
proof (induction n arbitrary: d)
  case 0
  then show ?case by (simp add: insertion_inner_stop)
next
  case (Suc n)
  show ?case
  proof (cases "a < Suc n \<and> f (d ! Suc n) < f (d ! n)")
    case True
    define d1 where "d1 = Swap d (Suc n) n"
    have e: "insertion_inner (key_lt f) d a (Suc n) = insertion_inner (key_lt f) d1 a n"
      using True insertion_inner_step [of a "Suc n" f d] by (simp add: d1_def)
    have n: "n < length d" "Suc n < length d" using Suc.prems by simp_all
    have nth: "d1 ! k = (if k = n then d ! Suc n else if k = Suc n then d ! n else d ! k)" for k
      unfolding d1_def using n by (simp add: Swap_nth)
    have p1: "perm_in a (Suc j) d d1"
      unfolding d1_def using True Suc.prems by (intro perm_in_Swap) simp_all
    have s1: "sorted_in f a n d1"
      using Suc.prems(4) by (auto simp: sorted_in_def nth)
    have s2: "sorted_in f n (Suc j) d1"
      unfolding sorted_in_def
    proof (intro allI impI)
      fix i l assume h: "n \<le> i \<and> i < l \<and> l < Suc j"
      consider "i = n" "l = Suc n" | "i = n" "Suc n < l" | "i = Suc n" | "Suc n < i"
        using h by linarith
      then show "f (d1 ! i) \<le> f (d1 ! l)"
      proof cases
        case 1
        then show ?thesis using True by (simp add: nth less_imp_le)
      next
        case 2
        then show ?thesis using Suc.prems(5) h by (simp add: nth sorted_in_def)
      next
        case 3
        then show ?thesis using Suc.prems(6) h True by (simp add: nth)
      next
        case 4
        then show ?thesis using Suc.prems(5) h by (simp add: nth sorted_in_def)
      qed
    qed
    have s3: "\<forall>k l. a \<le> k \<and> k < n \<and> n < l \<and> l \<le> j \<longrightarrow> f (d1 ! k) \<le> f (d1 ! l)"
    proof (intro allI impI)
      fix k l assume h: "a \<le> k \<and> k < n \<and> n < l \<and> l \<le> j"
      show "f (d1 ! k) \<le> f (d1 ! l)"
      proof (cases "l = Suc n")
        case True
        then show ?thesis using Suc.prems(4) h by (simp add: nth sorted_in_def)
      next
        case False
        then show ?thesis using Suc.prems(6) h by (simp add: nth)
      qed
    qed
    have "sorted_in f a (Suc j) (insertion_inner (key_lt f) d1 a n)
      \<and> perm_in a (Suc j) d1 (insertion_inner (key_lt f) d1 a n)"
      using True Suc.prems s1 s2 s3 by (intro Suc.IH) (simp_all add: d1_def)
    then show ?thesis
      using e p1 perm_in_trans by auto
  next
    case False
    then have e: "insertion_inner (key_lt f) d a (Suc n) = d"
      by (simp add: insertion_inner_stop)
    have "sorted_in f a (Suc j) d"
      unfolding sorted_in_def
    proof (intro allI impI)
      fix i l assume h: "a \<le> i \<and> i < l \<and> l < Suc j"
      consider "l < Suc n" | "Suc n \<le> i" | "i < Suc n" "l = Suc n" | "i < Suc n" "Suc n < l"
        by linarith
      then show "f (d ! i) \<le> f (d ! l)"
      proof cases
        case 1
        then show ?thesis using Suc.prems(4) h by (simp add: sorted_in_def)
      next
        case 2
        then show ?thesis using Suc.prems(5) h by (simp add: sorted_in_def)
      next
        case 3
        have "f (d ! n) \<le> f (d ! Suc n)" using False h 3 by auto
        moreover have "f (d ! i) \<le> f (d ! n)"
          using Suc.prems(4) h 3 by (cases "i = n") (simp_all add: sorted_in_def)
        ultimately show ?thesis using 3 by simp
      next
        case 4
        then show ?thesis using Suc.prems(6) h by simp
      qed
    qed
    then show ?thesis using e by simp
  qed
qed

lemma insertionSort_func_Suc:
  "a < b \<Longrightarrow> insertionSort_func lt d a (Suc b) = insertion_inner lt (insertionSort_func lt d a b) a b"
  by (simp add: insertionSort_func_def)

lemma insertionSort_func_sorts:
  assumes "a \<le> b" and "b \<le> length d"
  shows "sorted_in f a b (insertionSort_func (key_lt f) d a b)
    \<and> perm_in a b d (insertionSort_func (key_lt f) d a b)"
  using assms
proof (induction b rule: dec_induct)
  case base
  then show ?case by (simp add: insertionSort_func_def)
next
  case (step n)
  show ?case
  proof (cases "a = n")
    case True
    then show ?thesis by (simp add: insertionSort_func_def)
  next
    case False
    define d1 where "d1 = insertionSort_func (key_lt f) d a n"
    have ih: "sorted_in f a n d1" "perm_in a n d d1"
      using step by (simp_all add: d1_def)
    have l: "length d1 = length d" using ih(2) by (rule perm_in_length)
    have "sorted_in f a (Suc n) (insertion_inner (key_lt f) d1 a n)
      \<and> perm_in a (Suc n) d1 (insertion_inner (key_lt f) d1 a n)"
      using step ih l by (intro insertion_inner_sorts) auto
    moreover have "perm_in a (Suc n) d d1"
      using ih(2) by (rule perm_in_mono) simp_all
    ultimately show ?thesis
      using False step insertionSort_func_Suc [of a n "key_lt f" d] perm_in_trans
      by (auto simp: d1_def)
  qed
qed

subsection \<open>The partition in two parts\<close>

lemma scan_up_all: "i \<le> k \<Longrightarrow> k < scan_up cond i j \<Longrightarrow> cond k"
proof (induction cond i j rule: scan_up.induct)
  case (1 cond i j)
  show ?case
  proof (cases "i \<le> j \<and> cond i")
    case True
    then have e: "scan_up cond i j = scan_up cond (i + 1) j"
      by (subst scan_up.simps) simp
    show ?thesis
    proof (cases "k = i")
      case True
      then show ?thesis using \<open>i \<le> j \<and> cond i\<close> by simp
    next
      case False
      then show ?thesis using "1.IH" [OF True] "1.prems" e by simp
    qed
  next
    case False
    then have "scan_up cond i j = i"
      by (subst scan_up.simps) auto
    then show ?thesis using "1.prems" by simp
  qed
qed

lemma scan_down_all: "scan_down cond i j < k \<Longrightarrow> k \<le> j \<Longrightarrow> cond k"
proof (induction cond i j rule: scan_down.induct)
  case (1 cond i j)
  show ?case
  proof (cases "i \<le> j \<and> cond j")
    case True
    show ?thesis
    proof (cases "j = 0")
      case True
      then show ?thesis using "1.prems" by simp
    next
      case False
      then have e: "scan_down cond i j = scan_down cond i (j - 1)"
        using True by (subst scan_down.simps) simp
      show ?thesis
      proof (cases "k = j")
        case True
        then show ?thesis using \<open>i \<le> j \<and> cond j\<close> by simp
      next
        case k: False
        then show ?thesis using "1.IH" [OF True False] "1.prems" e by simp
      qed
    qed
  next
    case False
    then have "scan_down cond i j = j"
      by (subst scan_down.simps) auto
    then show ?thesis using "1.prems" by simp
  qed
qed

lemma partition_loop_correct:
  assumes "partition_loop (key_lt f) d a i j = (d', j')"
    and "a < i" and "i \<le> Suc j" and "j < b" and "b \<le> length d"
    and "all_in (Suc a) i (\<lambda>x. f x < f (d ! a)) d"
    and "all_in (Suc j) b (\<lambda>x. \<not> f x < f (d ! a)) d"
  shows "perm_in (Suc a) b d d' \<and> a \<le> j' \<and> j' < b
    \<and> all_in (Suc a) (Suc j') (\<lambda>x. f x < f (d ! a)) d'
    \<and> all_in (Suc j') b (\<lambda>x. \<not> f x < f (d ! a)) d'"
  using assms
proof (induction "Suc j - i" arbitrary: d i j rule: less_induct)
  case less
  note prems = less.prems
  define i1 where "i1 = scan_up (\<lambda>i. Less (key_lt f) d i a) i j"
  define j1 where "j1 = scan_down (\<lambda>j. \<not> Less (key_lt f) d j a) i1 j"
  have i1: "i \<le> i1" "i1 \<le> Suc j"
    using prems by (simp_all add: i1_def scan_up_ge scan_up_le)
  have j1: "j1 \<le> j" "i1 \<le> Suc j1"
    using i1 by (simp_all add: j1_def scan_down_le scan_down_ge)
  have left: "all_in (Suc a) i1 (\<lambda>x. f x < f (d ! a)) d"
    unfolding all_in_def
  proof (intro allI impI)
    fix k assume k: "Suc a \<le> k \<and> k < i1"
    show "f (d ! k) < f (d ! a)"
    proof (cases "k < i")
      case True
      then show ?thesis using prems(6) k by (simp add: all_in_def)
    next
      case False
      then have "i \<le> k" by simp
      from scan_up_all [OF this, of "\<lambda>i. Less (key_lt f) d i a" j] k
      show ?thesis by (simp add: i1_def)
    qed
  qed
  have right: "all_in (Suc j1) b (\<lambda>x. \<not> f x < f (d ! a)) d"
    unfolding all_in_def
  proof (intro allI impI)
    fix k assume k: "Suc j1 \<le> k \<and> k < b"
    show "\<not> f (d ! k) < f (d ! a)"
    proof (cases "j < k")
      case True
      then show ?thesis using prems(7) k by (simp add: all_in_def)
    next
      case False
      then have "k \<le> j" by simp
      from scan_down_all [of "\<lambda>j. \<not> Less (key_lt f) d j a" i1 j k] this k
      show ?thesis by (simp add: j1_def)
    qed
  qed
  show ?case
  proof (cases "i1 > j1")
    case True
    have "partition_loop (key_lt f) d a i j = (d, j1)"
      using True by (subst partition_loop.simps) (simp add: i1_def j1_def Let_def)
    then have e: "d' = d" "j' = j1" using prems(1) by simp_all
    have "all_in (Suc a) (Suc j1) (\<lambda>x. f x < f (d ! a)) d"
      using left True by (auto simp: all_in_def)
    then show ?thesis
      using e right i1 j1 prems by auto
  next
    case False
    have "partition_loop (key_lt f) d a i j
        = partition_loop (key_lt f) (Swap d i1 j1) a (i1 + 1) (j1 - 1)"
      using False by (subst partition_loop.simps) (simp add: i1_def j1_def Let_def)
    then have l: "partition_loop (key_lt f) (Swap d i1 j1) a (i1 + 1) (j1 - 1) = (d', j')"
      using prems(1) by simp
    have cross: "i1 < j1"
      using scans_cross [of i j i1 "\<lambda>i. Less (key_lt f) d i a" j1] prems False
      by (simp add: i1_def j1_def)
    have "i1 \<le> j" using cross j1 by simp
    then have ge: "\<not> f (d ! i1) < f (d ! a)"
      using scan_up_stop [of "\<lambda>i. Less (key_lt f) d i a" i j] by (simp add: i1_def)
    have "0 < i1" "i1 \<le> j1" using cross i1 prems(2) by simp_all
    then have lt: "f (d ! j1) < f (d ! a)"
      using scan_down_stop [of i1 "\<lambda>j. \<not> Less (key_lt f) d j a" j] by (simp add: j1_def)
    define d1 where "d1 = Swap d i1 j1"
    have len: "i1 < length d" "j1 < length d"
      using cross j1 prems by simp_all
    have nth: "d1 ! k = (if k = j1 then d ! i1 else if k = i1 then d ! j1 else d ! k)" for k
      unfolding d1_def using len by (simp add: Swap_nth)
    have a: "d1 ! a = d ! a"
      using prems(2) i1 cross by (simp add: nth)
    have p1: "perm_in (Suc a) b d d1"
      unfolding d1_def using prems i1 j1 cross by (intro perm_in_Swap) simp_all
    have ai: "a < i1" using prems(2) i1 by simp
    have left1: "all_in (Suc a) (i1 + 1) (\<lambda>x. f x < f (d1 ! a)) d1"
      unfolding a using left lt cross ai by (auto simp: all_in_def nth)
    have right1: "all_in (Suc (j1 - 1)) b (\<lambda>x. \<not> f x < f (d1 ! a)) d1"
      unfolding a using right ge cross ai by (auto simp: all_in_def nth)
    have m: "Suc (j1 - 1) - (i1 + 1) < Suc j - i"
      using cross i1 j1 by linarith
    have "perm_in (Suc a) b d1 d' \<and> a \<le> j' \<and> j' < b
      \<and> all_in (Suc a) (Suc j') (\<lambda>x. f x < f (d1 ! a)) d'
      \<and> all_in (Suc j') b (\<lambda>x. \<not> f x < f (d1 ! a)) d'"
      using prems i1 j1 cross left1 right1 l ai
      by (intro less.hyps [OF m]) (simp_all add: d1_def)
    then show ?thesis
      using p1 a perm_in_trans by auto
  qed
qed

lemma partition_func_loop:
  "\<exists>ap. partition_func lt d a b pivot =
     (case partition_loop lt (Swap d a pivot) a (a + 1) (b - 1) of
        (d1, j) \<Rightarrow> (Swap d1 j a, j, ap))"
proof -
  define d0 where "d0 = Swap d a pivot"
  define i1 where "i1 = scan_up (\<lambda>i. Less lt d0 i a) (a + 1) (b - 1)"
  define j1 where "j1 = scan_down (\<lambda>j. \<not> Less lt d0 j a) i1 (b - 1)"
  show ?thesis
  proof (cases "i1 > j1")
    case True
    have "partition_loop lt d0 a (a + 1) (b - 1) = (d0, j1)"
      using True by (subst partition_loop.simps) (simp add: i1_def j1_def Let_def)
    moreover have "partition_func lt d a b pivot = (Swap d0 j1 a, j1, True)"
      using True by (simp add: partition_func_def Let_def d0_def i1_def j1_def)
    ultimately show ?thesis by (auto simp: d0_def)
  next
    case False
    have "partition_loop lt d0 a (a + 1) (b - 1)
        = partition_loop lt (Swap d0 i1 j1) a (i1 + 1) (j1 - 1)"
      using False by (subst partition_loop.simps) (simp add: i1_def j1_def Let_def)
    moreover have "partition_func lt d a b pivot =
        (case partition_loop lt (Swap d0 i1 j1) a (i1 + 1) (j1 - 1) of
           (d1, j) \<Rightarrow> (Swap d1 j a, j, False))"
      using False by (simp add: partition_func_def Let_def d0_def i1_def j1_def)
    ultimately show ?thesis by (auto simp: d0_def)
  qed
qed

lemma partition_func_correct:
  assumes "partition_func (key_lt f) d a b pivot = (d', mid, ap)"
    and "a \<le> pivot" and "pivot < b" and "b \<le> length d"
  shows "perm_in a b d d' \<and> a \<le> mid \<and> mid < b
    \<and> all_in a mid (\<lambda>x. f x < f (d' ! mid)) d'
    \<and> all_in (Suc mid) b (\<lambda>x. \<not> f x < f (d' ! mid)) d'"
proof -
  define d0 where "d0 = Swap d a pivot"
  obtain d1 j where l: "partition_loop (key_lt f) d0 a (a + 1) (b - 1) = (d1, j)"
    by (cases "partition_loop (key_lt f) d0 a (a + 1) (b - 1)") auto
  have r: "d' = Swap d1 j a" "mid = j"
    using partition_func_loop [of "key_lt f" d a b pivot] assms(1) l by (auto simp: d0_def)
  have p0: "perm_in a b d d0"
    unfolding d0_def using assms by (intro perm_in_Swap) simp_all
  have len0: "length d0 = length d" by (simp add: d0_def)
  have c: "perm_in (Suc a) b d0 d1 \<and> a \<le> j \<and> j < b
    \<and> all_in (Suc a) (Suc j) (\<lambda>x. f x < f (d0 ! a)) d1
    \<and> all_in (Suc j) b (\<lambda>x. \<not> f x < f (d0 ! a)) d1"
    using l assms len0
    by (intro partition_loop_correct [where i = "a + 1" and j = "b - 1"])
      (auto simp: all_in_def)
  then have p1: "perm_in (Suc a) b d0 d1" and j: "a \<le> j" "j < b"
    and left: "all_in (Suc a) (Suc j) (\<lambda>x. f x < f (d0 ! a)) d1"
    and right: "all_in (Suc j) b (\<lambda>x. \<not> f x < f (d0 ! a)) d1"
    by simp_all
  have len1: "length d1 = length d" using p1 len0 by (simp add: perm_in_def)
  have a1: "d1 ! a = d0 ! a"
    using p1 assms len0 by (intro perm_in_nth [of "Suc a" b]) simp_all
  have nth: "d' ! k = (if k = a then d1 ! j else if k = j then d1 ! a else d1 ! k)" for k
    unfolding r using j assms len1 by (simp add: Swap_nth)
  have "d' ! j = d0 ! a"
    using a1 nth [of j] by auto
  then have m: "d' ! mid = d0 ! a"
    using r(2) by simp
  have "perm_in a b d1 d'"
    unfolding r using j assms len1 by (intro perm_in_Swap) simp_all
  moreover have "perm_in a b d0 d1"
    using p1 by (rule perm_in_mono) simp_all
  ultimately have p: "perm_in a b d d'"
    using p0 perm_in_trans by blast
  have l': "all_in a mid (\<lambda>x. f x < f (d' ! mid)) d'"
    unfolding r(2) using left j a1 by (auto simp: all_in_def nth)
  have r': "all_in (Suc mid) b (\<lambda>x. \<not> f x < f (d' ! mid)) d'"
    unfolding r(2) using right j a1 by (auto simp: all_in_def nth)
  show ?thesis
    using p j l' r' r(2) by simp
qed

subsection \<open>The partition of equal keys\<close>

lemma partitionEqual_loop_key:
  "partitionEqual_loop (key_lt f) d a i j =
     (let i1 = scan_up (\<lambda>i. \<not> f (d ! a) < f (d ! i)) i j;
          j1 = scan_down (\<lambda>j. f (d ! a) < f (d ! j)) i1 j
      in if i1 > j1 then (d, i1)
         else partitionEqual_loop (key_lt f) (Swap d i1 j1) a (i1 + 1) (j1 - 1))"
  by (subst partitionEqual_loop.simps) (simp add: Less_def [abs_def] key_lt_def)

lemma partitionEqual_loop_correct:
  assumes "partitionEqual_loop (key_lt f) d a i j = (d', i')"
    and "a < i" and "i \<le> Suc j" and "j < b" and "b \<le> length d"
    and "all_in (Suc a) i (\<lambda>x. \<not> f (d ! a) < f x) d"
    and "all_in (Suc j) b (\<lambda>x. f (d ! a) < f x) d"
  shows "perm_in (Suc a) b d d' \<and> a < i' \<and> i' \<le> b
    \<and> all_in (Suc a) i' (\<lambda>x. \<not> f (d ! a) < f x) d'
    \<and> all_in i' b (\<lambda>x. f (d ! a) < f x) d'"
  using assms
proof (induction "Suc j - i" arbitrary: d i j rule: less_induct)
  case less
  note prems = less.prems
  define i1 where "i1 = scan_up (\<lambda>i. \<not> f (d ! a) < f (d ! i)) i j"
  define j1 where "j1 = scan_down (\<lambda>j. f (d ! a) < f (d ! j)) i1 j"
  have j1': "j1 = scan_down (\<lambda>j. \<not> \<not> f (d ! a) < f (d ! j)) i1 j"
    by (simp add: j1_def)
  have i1: "i \<le> i1" "i1 \<le> Suc j"
    using prems by (simp_all add: i1_def scan_up_ge scan_up_le)
  have j1: "j1 \<le> j" "i1 \<le> Suc j1"
    using i1 by (simp_all add: j1_def scan_down_le scan_down_ge)
  have ai: "a < i1" using prems(2) i1 by simp
  have left: "all_in (Suc a) i1 (\<lambda>x. \<not> f (d ! a) < f x) d"
    unfolding all_in_def
  proof (intro allI impI)
    fix k assume k: "Suc a \<le> k \<and> k < i1"
    show "\<not> f (d ! a) < f (d ! k)"
    proof (cases "k < i")
      case True
      then show ?thesis using prems(6) k by (simp add: all_in_def)
    next
      case False
      then have "i \<le> k" by simp
      from scan_up_all [OF this, of "\<lambda>i. \<not> f (d ! a) < f (d ! i)" j] k
      show ?thesis by (simp add: i1_def)
    qed
  qed
  have right: "all_in (Suc j1) b (\<lambda>x. f (d ! a) < f x) d"
    unfolding all_in_def
  proof (intro allI impI)
    fix k assume k: "Suc j1 \<le> k \<and> k < b"
    show "f (d ! a) < f (d ! k)"
    proof (cases "j < k")
      case True
      then show ?thesis using prems(7) k by (simp add: all_in_def)
    next
      case False
      then have "k \<le> j" by simp
      from scan_down_all [of "\<lambda>j. f (d ! a) < f (d ! j)" i1 j k] this k
      show ?thesis by (simp add: j1_def)
    qed
  qed
  show ?case
  proof (cases "i1 > j1")
    case True
    have "partitionEqual_loop (key_lt f) d a i j = (d, i1)"
      using True by (subst partitionEqual_loop_key) (simp add: i1_def j1_def Let_def)
    then have e: "d' = d" "i' = i1" using prems(1) by simp_all
    have "i1 = Suc j1" using True j1 by simp
    then have "all_in i1 b (\<lambda>x. f (d ! a) < f x) d"
      using right by simp
    then show ?thesis
      using e left i1 j1 ai prems by auto
  next
    case False
    have "partitionEqual_loop (key_lt f) d a i j
        = partitionEqual_loop (key_lt f) (Swap d i1 j1) a (i1 + 1) (j1 - 1)"
      using False by (subst partitionEqual_loop_key) (simp add: i1_def j1_def Let_def)
    then have l: "partitionEqual_loop (key_lt f) (Swap d i1 j1) a (i1 + 1) (j1 - 1) = (d', i')"
      using prems(1) by simp
    have "0 < i" using prems(2) by simp
    from scans_cross [OF this prems(3) i1_def j1' False]
    have cross: "i1 < j1" by simp
    have "i1 \<le> j" using cross j1 by simp
    then have gt: "f (d ! a) < f (d ! i1)"
      using scan_up_stop [of "\<lambda>i. \<not> f (d ! a) < f (d ! i)" i j] by (simp add: i1_def)
    have "0 < i1" "i1 \<le> j1" using cross ai by simp_all
    then have le: "\<not> f (d ! a) < f (d ! j1)"
      using scan_down_stop [of i1 "\<lambda>j. f (d ! a) < f (d ! j)" j] by (simp add: j1_def)
    define d1 where "d1 = Swap d i1 j1"
    have len: "i1 < length d" "j1 < length d"
      using cross j1 prems by simp_all
    have nth: "d1 ! k = (if k = j1 then d ! i1 else if k = i1 then d ! j1 else d ! k)" for k
      unfolding d1_def using len by (simp add: Swap_nth)
    have a: "d1 ! a = d ! a"
      using ai cross by (simp add: nth)
    have p1: "perm_in (Suc a) b d d1"
      unfolding d1_def using prems ai j1 cross by (intro perm_in_Swap) simp_all
    have left1: "all_in (Suc a) (i1 + 1) (\<lambda>x. \<not> f (d1 ! a) < f x) d1"
      unfolding a using left le cross ai by (auto simp: all_in_def nth)
    have right1: "all_in (Suc (j1 - 1)) b (\<lambda>x. f (d1 ! a) < f x) d1"
      unfolding a using right gt cross ai by (auto simp: all_in_def nth)
    have m: "Suc (j1 - 1) - (i1 + 1) < Suc j - i"
      using cross i1 j1 by linarith
    have "perm_in (Suc a) b d1 d' \<and> a < i' \<and> i' \<le> b
      \<and> all_in (Suc a) i' (\<lambda>x. \<not> f (d1 ! a) < f x) d'
      \<and> all_in i' b (\<lambda>x. f (d1 ! a) < f x) d'"
      using prems i1 j1 cross left1 right1 l ai
      by (intro less.hyps [OF m]) (simp_all add: d1_def)
    then show ?thesis
      using p1 a perm_in_trans by auto
  qed
qed

lemma partitionEqual_func_correct:
  assumes "partitionEqual_func (key_lt f) d a b pivot = (d', mid)"
    and "a \<le> pivot" and "pivot < b" and "b \<le> length d"
  shows "perm_in a b d d' \<and> a < mid \<and> mid \<le> b
    \<and> all_in a mid (\<lambda>x. \<not> f (d ! pivot) < f x) d'
    \<and> all_in mid b (\<lambda>x. f (d ! pivot) < f x) d'"
proof -
  define d0 where "d0 = Swap d a pivot"
  have l: "partitionEqual_loop (key_lt f) d0 a (a + 1) (b - 1) = (d', mid)"
    using assms(1) by (simp add: partitionEqual_func_def Let_def d0_def)
  have p0: "perm_in a b d d0"
    unfolding d0_def using assms by (intro perm_in_Swap) simp_all
  have len0: "length d0 = length d" by (simp add: d0_def)
  have a0: "d0 ! a = d ! pivot"
    unfolding d0_def using assms by (simp add: Swap_nth)
  have c: "perm_in (Suc a) b d0 d' \<and> a < mid \<and> mid \<le> b
    \<and> all_in (Suc a) mid (\<lambda>x. \<not> f (d0 ! a) < f x) d'
    \<and> all_in mid b (\<lambda>x. f (d0 ! a) < f x) d'"
    using l assms len0
    by (intro partitionEqual_loop_correct [where i = "a + 1" and j = "b - 1"])
      (auto simp: all_in_def)
  then have p1: "perm_in (Suc a) b d0 d'" by simp
  have a': "d' ! a = d0 ! a"
    using p1 assms len0 by (intro perm_in_nth [of "Suc a" b]) simp_all
  have "all_in a mid (\<lambda>x. \<not> f (d0 ! a) < f x) d'"
    unfolding all_in_def
  proof (intro allI impI)
    fix k assume k: "a \<le> k \<and> k < mid"
    show "\<not> f (d0 ! a) < f (d' ! k)"
    proof (cases "k = a")
      case True
      then show ?thesis using a' by simp
    next
      case False
      then have "Suc a \<le> k \<and> k < mid" using k by simp
      then show ?thesis using c by (simp add: all_in_def)
    qed
  qed
  moreover have "perm_in a b d0 d'"
    using p1 by (rule perm_in_mono) simp_all
  then have "perm_in a b d d'"
    using p0 perm_in_trans by blast
  ultimately show ?thesis
    using c a0 by simp
qed

subsection \<open>Pattern breaking, pivot and reversal\<close>

lemma bits_Len_bound: "0 < n \<Longrightarrow> 2 ^ bits_Len n \<le> 2 * n"
proof (induction n rule: bits_Len.induct)
  case (1 n)
  show ?case
  proof (cases "n div 2 = 0")
    case True
    then have "n = 1" using "1.prems" by linarith
    then show ?thesis by (simp add: bits_Len.simps)
  next
    case False
    then have "2 ^ bits_Len (n div 2) \<le> 2 * (n div 2)"
      using "1.IH" "1.prems" by simp
    moreover have "bits_Len n = Suc (bits_Len (n div 2))"
      using "1.prems" by (subst bits_Len.simps) simp
    ultimately show ?thesis by simp
  qed
qed

lemma unat_and_mask_less: "unat ((x :: 64 word) AND (push_bit k 1 - 1)) < 2 ^ k"
proof -
  have "x AND (push_bit k 1 - 1) = take_bit k x"
    by (simp add: take_bit_eq_mask mask_eq_exp_minus_1)
  then have "unat (x AND (push_bit k 1 - 1)) = take_bit k (unat x)"
    by (simp add: unsigned_take_bit_eq)
  then show ?thesis by simp
qed

lemma breakPatterns_loop_perm:
  assumes "\<forall>i \<in> set is. a \<le> idx - 1 + i \<and> idx - 1 + i < b"
    and "b \<le> length d" and "0 < len" and "len = b - a"
  shows "perm_in a b d (breakPatterns_loop d a len random (nextPowerOfTwo len) idx is)"
  using assms
proof (induction "is" arbitrary: d random)
  case Nil
  then show ?case by simp
next
  case (Cons i "is")
  define r where "r = xorshift_Next random"
  define other where "other = unat (r AND (nextPowerOfTwo len - 1))"
  define other' where "other' = (if other \<ge> len then other - len else other)"
  have "other < 2 ^ bits_Len len"
    unfolding other_def nextPowerOfTwo_def by (rule unat_and_mask_less)
  then have "other < 2 * len"
    using bits_Len_bound [OF Cons.prems(3)] by linarith
  have o: "other' < len"
  proof (cases "other \<ge> len")
    case True
    then have "other - len < len"
      using \<open>other < 2 * len\<close> by arith
    then show ?thesis using True by (simp add: other'_def)
  next
    case False
    then show ?thesis by (simp add: other'_def)
  qed
  define d1 where "d1 = Swap d (idx - 1 + i) (a + other')"
  have p1: "perm_in a b d d1"
    unfolding d1_def using Cons.prems o by (intro perm_in_Swap) auto
  have "perm_in a b d1 (breakPatterns_loop d1 a len r (nextPowerOfTwo len) idx is)"
    using Cons.prems by (intro Cons.IH) (simp_all add: d1_def)
  moreover have "breakPatterns_loop d a len random (nextPowerOfTwo len) idx (i # is)
      = breakPatterns_loop d1 a len r (nextPowerOfTwo len) idx is"
    by (simp add: Let_def r_def other_def other'_def d1_def)
  ultimately show ?case
    using p1 perm_in_trans by metis
qed

lemma breakPatterns_func_perm:
  assumes "a \<le> b" and "b \<le> length d"
  shows "perm_in a b d (breakPatterns_func d a b)"
proof (cases "b - a \<ge> 8")
  case True
  define len where "len = b - a"
  have "perm_in a b d
     (breakPatterns_loop d a len (of_nat len) (nextPowerOfTwo len) (a + (len div 4) * 2 - 1) [0, 1, 2])"
    using True assms by (intro breakPatterns_loop_perm) (auto simp: len_def)
  then show ?thesis
    using True by (simp add: breakPatterns_func_def Let_def len_def)
next
  case False
  then show ?thesis by (simp add: breakPatterns_func_def Let_def)
qed

lemma order2_func_range:
  "order2_func lt d x y s = (x', y', s') \<Longrightarrow> (x' = x \<and> y' = y) \<or> (x' = y \<and> y' = x)"
  by (auto simp: order2_func_def split: if_splits)

lemma median_func_range:
  assumes "median_func lt d x y z s = (m, s')"
  shows "m = x \<or> m = y \<or> m = z"
proof -
  obtain x1 y1 s1 where o1: "order2_func lt d x y s = (x1, y1, s1)"
    by (metis prod_cases3)
  obtain y2 z2 s2 where o2: "order2_func lt d y1 z s1 = (y2, z2, s2)"
    by (metis prod_cases3)
  obtain x3 y3 s3 where o3: "order2_func lt d x1 y2 s2 = (x3, y3, s3)"
    by (metis prod_cases3)
  have "m = y3"
    using assms o1 o2 o3 by (simp add: median_func_def)
  then show ?thesis
    using order2_func_range [OF o1] order2_func_range [OF o2] order2_func_range [OF o3]
    by auto
qed

lemma medianAdjacent_func_range:
  "medianAdjacent_func lt d x s = (m, s') \<Longrightarrow> m = x - 1 \<or> m = x \<or> m = x + 1"
  unfolding medianAdjacent_func_def by (drule median_func_range) auto

lemma choosePivot_func_range:
  assumes "choosePivot_func lt d a b = (pivot, hint)" and "12 < b - a"
  shows "a \<le> pivot \<and> pivot < b"
proof -
  define l where "l = b - a"
  define q where "q = l div 4"
  have q: "3 \<le> q" "4 * q \<le> l" "b = a + l"
    using assms(2) by (simp_all add: l_def q_def)
  obtain i1 s1 where m1: "medianAdjacent_func lt d (a + q) 0 = (i1, s1)"
    by (metis surj_pair)
  obtain j1 s2 where m2: "medianAdjacent_func lt d (a + q * 2) s1 = (j1, s2)"
    by (metis surj_pair)
  obtain k1 s3 where m3: "medianAdjacent_func lt d (a + q * 3) s2 = (k1, s3)"
    by (metis surj_pair)
  obtain j2 s4 where m4: "median_func lt d i1 j1 k1 s3 = (j2, s4)"
    by (metis surj_pair)
  obtain j3 s5 where m5: "median_func lt d (a + q) (a + q * 2) (a + q * 3) 0 = (j3, s5)"
    by (metis surj_pair)
  have r1: "a \<le> i1 \<and> i1 < b" "a \<le> j1 \<and> j1 < b" "a \<le> k1 \<and> k1 < b"
    using medianAdjacent_func_range [OF m1] medianAdjacent_func_range [OF m2]
      medianAdjacent_func_range [OF m3] q by auto
  have r2: "a \<le> j2 \<and> j2 < b"
    using median_func_range [OF m4] r1 by auto
  have r3: "a \<le> j3 \<and> j3 < b"
    using median_func_range [OF m5] q by auto
  have "pivot = j2 \<or> pivot = j3"
    using assms m1 m2 m3 m4 m5
    by (auto simp: choosePivot_func_def Let_def l_def q_def split: if_splits)
  then show ?thesis using r2 r3 by auto
qed

lemma reverseRange_loop_perm:
  "a \<le> i \<Longrightarrow> j < b \<Longrightarrow> b \<le> length d \<Longrightarrow> perm_in a b d (reverseRange_loop d i j)"
proof (induction d i j rule: reverseRange_loop.induct)
  case (1 d i j)
  show ?case
  proof (cases "i < j")
    case True
    have "perm_in a b d (Swap d i j)"
      using True "1.prems" by (intro perm_in_Swap) simp_all
    moreover have "perm_in a b (Swap d i j) (reverseRange_loop (Swap d i j) (i + 1) (j - 1))"
      using True "1.prems" by (intro "1.IH") simp_all
    moreover have "reverseRange_loop d i j = reverseRange_loop (Swap d i j) (i + 1) (j - 1)"
      using True by (subst reverseRange_loop.simps) simp
    ultimately show ?thesis
      using perm_in_trans by metis
  next
    case False
    then have "reverseRange_loop d i j = d"
      by (subst reverseRange_loop.simps) simp
    then show ?thesis by simp
  qed
qed

lemma reverseRange_func_perm:
  "a < b \<Longrightarrow> b \<le> length d \<Longrightarrow> perm_in a b d (reverseRange_func d a b)"
  unfolding reverseRange_func_def by (rule reverseRange_loop_perm) simp_all

subsection \<open>Partial insertion sort\<close>

lemma shift_left_insertion_inner: "shift_left lt d j = insertion_inner lt d 0 j"
proof (induction j arbitrary: d)
  case 0
  show ?case
    by (subst shift_left.simps, subst insertion_inner.simps) simp
next
  case (Suc j)
  show ?case
    using Suc.IH [of "Swap d (Suc j) j"]
    by (subst shift_left.simps, subst insertion_inner.simps) simp
qed

lemma insertion_inner_guarded:
  assumes "a \<le> j" and "j < length d" and "guarded f a (Suc j) d"
  shows "insertion_inner (key_lt f) d 0 j = insertion_inner (key_lt f) d a j"
  using assms
proof (induction j arbitrary: d)
  case 0
  then show ?case by simp
next
  case (Suc j)
  show ?case
  proof (cases "a = Suc j")
    case True
    then have "\<not> f (d ! Suc j) < f (d ! j)"
      using Suc.prems(3) by (auto simp: guarded_def all_in_def)
    then show ?thesis
      using True by (simp add: insertion_inner_stop)
  next
    case False
    then have a: "a \<le> j" using Suc.prems by simp
    show ?thesis
    proof (cases "f (d ! Suc j) < f (d ! j)")
      case True
      define d1 where "d1 = Swap d (Suc j) j"
      have nth: "d1 ! k = (if k = j then d ! Suc j else if k = Suc j then d ! j else d ! k)" for k
        unfolding d1_def using Suc.prems by (simp add: Swap_nth)
      have "guarded f a (Suc j) d1"
        using Suc.prems(3) a by (auto simp: guarded_def all_in_def nth)
      then have "insertion_inner (key_lt f) d1 0 j = insertion_inner (key_lt f) d1 a j"
        using a Suc.prems by (intro Suc.IH) (simp_all add: d1_def)
      then show ?thesis
        using True a insertion_inner_step [of a "Suc j" f d] insertion_inner_step [of 0 "Suc j" f d]
        by (simp add: d1_def)
    next
      case False
      then show ?thesis by (simp add: insertion_inner_stop)
    qed
  qed
qed

lemma shift_right_perm:
  assumes "0 < j" and "b \<le> length d"
  shows "perm_in (j - 1) b d (shift_right (key_lt f) d j b)"
  using assms
proof (induction "b - j" arbitrary: d j rule: less_induct)
  case less
  show ?case
  proof (cases "j < b \<and> f (d ! j) < f (d ! (j - 1))")
    case True
    then have jb: "j < b" by simp
    define d1 where "d1 = Swap d j (j - 1)"
    have e: "shift_right (key_lt f) d j b = shift_right (key_lt f) d1 (j + 1) b"
      using True by (subst shift_right.simps) (simp add: d1_def)
    have p1: "perm_in (j - 1) b d d1"
      unfolding d1_def using jb less.prems by (intro perm_in_Swap) simp_all
    have "perm_in (j + 1 - 1) b d1 (shift_right (key_lt f) d1 (j + 1) b)"
      using jb less.prems by (intro less.hyps) (simp_all add: d1_def)
    then have "perm_in (j - 1) b d1 (shift_right (key_lt f) d1 (j + 1) b)"
      by (rule perm_in_mono) simp_all
    then show ?thesis
      using e p1 perm_in_trans by metis
  next
    case False
    then have "shift_right (key_lt f) d j b = d"
      by (subst shift_right.simps) auto
    then show ?thesis by simp
  qed
qed

lemma sorted_in_extend:
  assumes "sorted_in f a k d" and "a < k" and "f (d ! (k - 1)) \<le> f (d ! k)"
  shows "sorted_in f a (Suc k) d"
  unfolding sorted_in_def
proof (intro allI impI)
  fix i j assume h: "a \<le> i \<and> i < j \<and> j < Suc k"
  show "f (d ! i) \<le> f (d ! j)"
  proof (cases "j = k")
    case True
    have "f (d ! i) \<le> f (d ! (k - 1))"
      using assms(1) h True by (cases "i = k - 1") (auto simp: sorted_in_def)
    then show ?thesis using assms(3) True by simp
  next
    case False
    then show ?thesis using assms(1) h by (simp add: sorted_in_def)
  qed
qed

lemma sorted_in_scan:
  assumes "sorted_in f a i d" and "a < i"
    and "\<forall>k. i \<le> k \<and> k < i' \<longrightarrow> \<not> f (d ! k) < f (d ! (k - 1))"
    and "i \<le> i'"
  shows "sorted_in f a i' d"
  using assms(4,3)
proof (induction i' rule: dec_induct)
  case base
  then show ?case using assms(1) by simp
next
  case (step n)
  then have s: "sorted_in f a n d" by simp
  have e: "f (d ! (n - 1)) \<le> f (d ! n)"
    using step by (simp add: not_less)
  show ?case
    by (rule sorted_in_extend) (use assms(2) step s e in \<open>simp_all\<close>)
qed

lemma sorted_in_perm_above:
  assumes "sorted_in f a i d" and "perm_in i b d d'" and "i \<le> length d"
  shows "sorted_in f a i d'"
proof -
  have "d' ! k = d ! k" if "k < i" for k
    using assms(2,3) that by (intro perm_in_nth [of i b]) simp_all
  then show ?thesis
    using assms(1) by (simp add: sorted_in_def)
qed

lemma guarded_perm:
  assumes "guarded f a b d" and "perm_in a b d d'" and "a \<le> b" and "b \<le> length d"
  shows "guarded f a b d'"
proof (cases "a = 0")
  case True
  then show ?thesis by (simp add: guarded_def)
next
  case False
  then have "d' ! (a - 1) = d ! (a - 1)"
    using assms by (intro perm_in_nth [of a b]) simp_all
  moreover have "all_in a b (\<lambda>x. \<not> f x < f (d ! (a - 1))) d'"
    by (rule perm_in_all_in [of a b d d']) (use assms False in \<open>simp_all add: guarded_def\<close>)
  ultimately show ?thesis by (simp add: guarded_def)
qed

lemma guarded_mono: "guarded f a b d \<Longrightarrow> b' \<le> b \<Longrightarrow> guarded f a b' d"
  by (auto simp: guarded_def all_in_def)

lemma partialInsertionSort_loop_Suc:
  "partialInsertionSort_loop (key_lt f) d a b i (Suc steps) =
     (let i1 = scan_up (\<lambda>i. \<not> f (d ! i) < f (d ! (i - 1))) i (b - 1)
      in if i1 = b then (d, True)
         else if b - a < 50 then (d, False)
         else
           (let d1 = Swap d i1 (i1 - 1);
                d2 = (if i1 - a \<ge> 2 then shift_left (key_lt f) d1 (i1 - 1) else d1);
                d3 = (if b - i1 \<ge> 2 then shift_right (key_lt f) d2 (i1 + 1) b else d2)
            in partialInsertionSort_loop (key_lt f) d3 a b i1 steps))"
  by (simp add: Let_def)

lemma partialInsertionSort_loop_correct:
  assumes "partialInsertionSort_loop (key_lt f) d a b i steps = (d', ok)"
    and "a < i" and "i \<le> b" and "b \<le> length d"
    and "sorted_in f a i d" and "guarded f a b d"
  shows "perm_in a b d d' \<and> (ok \<longrightarrow> sorted_in f a b d')"
  using assms
proof (induction steps arbitrary: d i)
  case 0
  then show ?case by simp
next
  case (Suc steps)
  note partialInsertionSort_loop.simps [simp del]
  define i1 where "i1 = scan_up (\<lambda>i. \<not> f (d ! i) < f (d ! (i - 1))) i (b - 1)"
  have i1: "i \<le> i1" "i1 \<le> b"
    using scan_up_le [of i "b - 1"] Suc.prems by (simp_all add: i1_def scan_up_ge)
  have "\<forall>k. i \<le> k \<and> k < i1 \<longrightarrow> \<not> f (d ! k) < f (d ! (k - 1))"
  proof (intro allI impI)
    fix k assume k: "i \<le> k \<and> k < i1"
    then have "i \<le> k" "k < scan_up (\<lambda>i. \<not> f (d ! i) < f (d ! (i - 1))) i (b - 1)"
      by (simp_all add: i1_def)
    then show "\<not> f (d ! k) < f (d ! (k - 1))"
      by (rule scan_up_all)
  qed
  note scanned = this
  have s1: "sorted_in f a i1 d"
    by (rule sorted_in_scan [of f a i]) (use Suc.prems i1 scanned in \<open>simp_all\<close>)
  show ?case
  proof (cases "i1 = b")
    case True
    then have "partialInsertionSort_loop (key_lt f) d a b i (Suc steps) = (d, True)"
      by (simp add: partialInsertionSort_loop_Suc i1_def Let_def)
    then show ?thesis using Suc.prems(1) s1 True by simp
  next
    case False
    show ?thesis
    proof (cases "b - a < 50")
      case True
      then have "partialInsertionSort_loop (key_lt f) d a b i (Suc steps) = (d, False)"
        using False by (simp add: partialInsertionSort_loop_Suc i1_def Let_def)
      then show ?thesis using Suc.prems(1) by simp
    next
      case big: False
      have ib: "i1 < b" "a < i1" using False i1 Suc.prems by simp_all
      then have "i1 \<le> b - 1" by simp
      then have small: "f (d ! i1) < f (d ! (i1 - 1))"
        using scan_up_stop [of "\<lambda>i. \<not> f (d ! i) < f (d ! (i - 1))" i "b - 1"]
        by (simp add: i1_def)
      define d1 where "d1 = Swap d i1 (i1 - 1)"
      define d2 where "d2 = (if i1 - a \<ge> 2 then shift_left (key_lt f) d1 (i1 - 1) else d1)"
      define d3 where "d3 = (if b - i1 \<ge> 2 then shift_right (key_lt f) d2 (i1 + 1) b else d2)"
      have e: "partialInsertionSort_loop (key_lt f) d a b i (Suc steps)
          = partialInsertionSort_loop (key_lt f) d3 a b i1 steps"
        using False big
        by (simp add: partialInsertionSort_loop_Suc i1_def Let_def d1_def d2_def d3_def)
      have len: "i1 < length d" using ib Suc.prems by simp
      have nth: "d1 ! k = (if k = i1 - 1 then d ! i1 else if k = i1 then d ! (i1 - 1) else d ! k)" for k
        unfolding d1_def using len by (simp add: Swap_nth)
      have p1: "perm_in a b d d1"
        unfolding d1_def using ib Suc.prems by (intro perm_in_Swap) simp_all
      have l1: "length d1 = length d" by (simp add: d1_def)
      have g1: "guarded f a b d1"
        by (rule guarded_perm [of f a b d]) (use Suc.prems p1 in \<open>simp_all\<close>)
      have s1': "sorted_in f a (i1 - 1) d1"
        using s1 by (auto simp: sorted_in_def nth)
      have c2: "sorted_in f a i1 d2 \<and> perm_in a i1 d1 d2"
      proof (cases "i1 - a \<ge> 2")
        case True
        have "guarded f a (Suc (i1 - 1)) d1"
          by (rule guarded_mono [of f a b]) (use g1 ib in \<open>simp_all\<close>)
        then have "shift_left (key_lt f) d1 (i1 - 1) = insertion_inner (key_lt f) d1 a (i1 - 1)"
          using True ib len l1
          by (simp add: shift_left_insertion_inner insertion_inner_guarded)
        moreover have "sorted_in f a (Suc (i1 - 1)) (insertion_inner (key_lt f) d1 a (i1 - 1))
          \<and> perm_in a (Suc (i1 - 1)) d1 (insertion_inner (key_lt f) d1 a (i1 - 1))"
          using True ib len l1 s1' by (intro insertion_inner_sorts) auto
        ultimately show ?thesis
          using True ib by (simp add: d2_def)
      next
        case False
        then have "i1 = Suc a" using ib by simp
        then show ?thesis using False by (simp add: d2_def)
      qed
      have l2: "length d2 = length d" using c2 l1 by (simp add: perm_in_def)
      have p2: "perm_in a b d1 d2"
        by (rule perm_in_mono [of a i1]) (use c2 ib in \<open>simp_all\<close>)
      have p3': "perm_in i1 b d2 d3"
      proof (cases "b - i1 \<ge> 2")
        case True
        have "perm_in (i1 + 1 - 1) b d2 (shift_right (key_lt f) d2 (i1 + 1) b)"
          using Suc.prems l2 by (intro shift_right_perm) simp_all
        then show ?thesis using True by (simp add: d3_def)
      next
        case False
        then show ?thesis by (simp add: d3_def)
      qed
      have s3: "sorted_in f a i1 d3"
        by (rule sorted_in_perm_above [of f a i1 d2 b]) (use c2 p3' len l2 in \<open>simp_all\<close>)
      have p3: "perm_in a b d2 d3"
        by (rule perm_in_mono [of i1 b]) (use p3' ib in \<open>simp_all\<close>)
      have p: "perm_in a b d d3"
        using p1 p2 p3 perm_in_trans by metis
      have l3: "length d3 = length d" using p by (rule perm_in_length)
      have g3: "guarded f a b d3"
        by (rule guarded_perm [of f a b d]) (use Suc.prems p in \<open>simp_all\<close>)
      have "perm_in a b d3 d' \<and> (ok \<longrightarrow> sorted_in f a b d')"
        using Suc.prems(1) e ib Suc.prems(4) l3 s3 g3 by (intro Suc.IH [of d3 i1]) simp_all
      then show ?thesis
        using p perm_in_trans by metis
    qed
  qed
qed

lemma partialInsertionSort_func_correct:
  assumes "partialInsertionSort_func (key_lt f) d a b = (d', ok)"
    and "a < b" and "b \<le> length d" and "guarded f a b d"
  shows "perm_in a b d d' \<and> (ok \<longrightarrow> sorted_in f a b d')"
proof -
  have "partialInsertionSort_loop (key_lt f) d a b (a + 1) 5 = (d', ok)"
    using assms(1) by (simp add: partialInsertionSort_func_def del: partialInsertionSort_loop.simps)
  then show ?thesis
    using assms(2-4) by (intro partialInsertionSort_loop_correct [of f d a b "a + 1" 5]) simp_all
qed

subsection \<open>Heap sort\<close>

lemma siftDown_func_key:
  "siftDown_func (key_lt f) d r hi first =
     (if 2 * r + 1 \<ge> hi then d
      else
        (let c = (if 2 * r + 2 < hi \<and> f (d ! (first + (2 * r + 1))) < f (d ! (first + (2 * r + 2)))
                  then 2 * r + 2 else 2 * r + 1)
         in if \<not> f (d ! (first + r)) < f (d ! (first + c)) then d
            else siftDown_func (key_lt f) (Swap d (first + r) (first + c)) c hi first))"
  by (subst siftDown_func.simps) (simp add: Let_def add.assoc)

lemma siftDown_func_correct:
  assumes "heap_except f first lo hi r d" and "lo \<le> r" and "first + hi \<le> length d"
  shows "heap_from f first lo hi (siftDown_func (key_lt f) d r hi first)
    \<and> perm_in (first + r) (first + hi) d (siftDown_func (key_lt f) d r hi first)"
  using assms
proof (induction "hi - r" arbitrary: d r rule: less_induct)
  case less
  note he = less.prems(1)
  show ?case
  proof (cases "2 * r + 1 \<ge> hi")
    case True
    then have e: "siftDown_func (key_lt f) d r hi first = d"
      by (subst siftDown_func_key) simp
    have "heap_from f first lo hi d"
      unfolding heap_from_def
    proof (intro allI impI)
      fix p c assume h: "lo \<le> p \<and> c < hi \<and> is_child c p"
      then have "p \<noteq> r" using True by (auto simp: is_child_def)
      then show "f (d ! (first + c)) \<le> f (d ! (first + p))"
        using he h by (simp add: heap_except_def)
    qed
    then show ?thesis using e by simp
  next
    case False
    define c where "c = (if 2 * r + 2 < hi \<and> f (d ! (first + (2 * r + 1))) < f (d ! (first + (2 * r + 2)))
                  then 2 * r + 2 else 2 * r + 1)"
    have c: "is_child c r" "c < hi" "r < c"
      using False by (auto simp: c_def is_child_def)
    have cmax: "f (d ! (first + c')) \<le> f (d ! (first + c))" if "is_child c' r" "c' < hi" for c'
      using that by (auto simp: c_def is_child_def)
    show ?thesis
    proof (cases "f (d ! (first + r)) < f (d ! (first + c))")
      case big: False
      then have e: "siftDown_func (key_lt f) d r hi first = d"
        using False by (subst siftDown_func_key) (simp add: c_def Let_def)
      have "heap_from f first lo hi d"
        unfolding heap_from_def
      proof (intro allI impI)
        fix p c' assume h: "lo \<le> p \<and> c' < hi \<and> is_child c' p"
        show "f (d ! (first + c')) \<le> f (d ! (first + p))"
        proof (cases "p = r")
          case True
          then have "f (d ! (first + c')) \<le> f (d ! (first + c))"
            using cmax h by simp
          then show ?thesis using big True by simp
        next
          case False
          then show ?thesis using he h by (simp add: heap_except_def)
        qed
      qed
      then show ?thesis using e by simp
    next
      case small: True
      define d1 where "d1 = Swap d (first + r) (first + c)"
      have e: "siftDown_func (key_lt f) d r hi first = siftDown_func (key_lt f) d1 c hi first"
        using False small by (subst siftDown_func_key) (simp add: c_def Let_def d1_def)
      have len: "first + r < length d" "first + c < length d"
        using c less.prems by simp_all
      have nth: "d1 ! (first + k) = (if k = c then d ! (first + r) else if k = r then d ! (first + c)
          else d ! (first + k))" for k
        unfolding d1_def using len by (simp add: Swap_nth)
      have p1: "perm_in (first + r) (first + hi) d d1"
        unfolding d1_def using c less.prems by (intro perm_in_Swap) simp_all
      have he1: "heap_except f first lo hi c d1"
        unfolding heap_except_def
      proof (intro conjI allI impI)
        fix p c' assume h: "lo \<le> p \<and> p \<noteq> c \<and> c' < hi \<and> is_child c' p"
        show "f (d1 ! (first + c')) \<le> f (d1 ! (first + p))"
        proof (cases "p = r")
          case True
          show ?thesis
          proof (cases "c' = c")
            case True
            then show ?thesis using small \<open>p = r\<close> c by (simp add: nth less_imp_le)
          next
            case False
            then have "c' \<noteq> r" using h True by (auto simp: is_child_def)
            then show ?thesis using cmax [of c'] h True False c by (simp add: nth)
          qed
        next
          case False
          have pc: "c' \<noteq> c"
            using h c False by (auto simp: is_child_def)
          show ?thesis
          proof (cases "c' = r")
            case True
            then have "f (d ! (first + c)) \<le> f (d ! (first + p))"
              using he h c by (auto simp: heap_except_def)
            then show ?thesis using True False h c by (simp add: nth)
          next
            case cr: False
            then show ?thesis using he h False pc by (simp add: nth heap_except_def)
          qed
        qed
      next
        fix p c' assume h: "lo \<le> p \<and> is_child c p \<and> c' < hi \<and> is_child c' c"
        then have pr: "p = r" using c by (auto simp: is_child_def)
        have "c' \<noteq> c" "c' \<noteq> r" using h c by (auto simp: is_child_def)
        moreover have "f (d ! (first + c')) \<le> f (d ! (first + c))"
          using he h c less.prems(2) by (auto simp: heap_except_def)
        ultimately show "f (d1 ! (first + c')) \<le> f (d1 ! (first + p))"
          using pr c by (simp add: nth)
      qed
      have m: "hi - c < hi - r" using c by simp
      have "heap_from f first lo hi (siftDown_func (key_lt f) d1 c hi first)
        \<and> perm_in (first + c) (first + hi) d1 (siftDown_func (key_lt f) d1 c hi first)"
        using he1 c less.prems by (intro less.hyps [OF m]) (simp_all add: d1_def)
      moreover have "perm_in (first + r) (first + hi) d1 d2"
        if "perm_in (first + c) (first + hi) d1 d2" for d2
        using that c perm_in_mono [of "first + c" "first + hi" d1 d2 "first + r" "first + hi"]
        by simp
      ultimately show ?thesis
        using e p1 perm_in_trans by metis
    qed
  qed
qed

lemma heap_root_max:
  assumes "heap_from f first 0 n d" and "k < n"
  shows "f (d ! (first + k)) \<le> f (d ! first)"
  using assms(2)
proof (induction k rule: less_induct)
  case (less k)
  show ?case
  proof (cases "k = 0")
    case True
    then show ?thesis by simp
  next
    case False
    define p where "p = (k - 1) div 2"
    have c: "is_child k p" "p < k"
      using False by (auto simp: p_def is_child_def)
    then have "f (d ! (first + k)) \<le> f (d ! (first + p))"
      using assms(1) less.prems by (simp add: heap_from_def)
    moreover have "f (d ! (first + p)) \<le> f (d ! first)"
      using c less.prems by (intro less.IH) simp_all
    ultimately show ?thesis by simp
  qed
qed

lemma heap_build_correct:
  assumes "heap_from f first m hi d" and "first + hi \<le> length d"
  shows "heap_from f first 0 hi
      (foldl (\<lambda>data i. siftDown_func (key_lt f) data i hi first) d (rev [0..<m]))
    \<and> perm_in first (first + hi) d
      (foldl (\<lambda>data i. siftDown_func (key_lt f) data i hi first) d (rev [0..<m]))"
  using assms
proof (induction m arbitrary: d)
  case 0
  then show ?case by simp
next
  case (Suc m)
  define d1 where "d1 = siftDown_func (key_lt f) d m hi first"
  have "heap_except f first m hi m d"
    using Suc.prems(1) by (auto simp: heap_except_def heap_from_def is_child_def)
  then have s: "heap_from f first m hi d1" "perm_in (first + m) (first + hi) d d1"
    using siftDown_func_correct [of f first m hi m d] Suc.prems(2) by (simp_all add: d1_def)
  have p1: "perm_in first (first + hi) d d1"
    using s(2) perm_in_mono [of "first + m" "first + hi" d d1 first "first + hi"] by simp
  have len: "length d1 = length d" using p1 by (rule perm_in_length)
  have "heap_from f first 0 hi
      (foldl (\<lambda>data i. siftDown_func (key_lt f) data i hi first) d1 (rev [0..<m]))
    \<and> perm_in first (first + hi) d1
      (foldl (\<lambda>data i. siftDown_func (key_lt f) data i hi first) d1 (rev [0..<m]))"
    using s(1) Suc.prems(2) len by (intro Suc.IH) simp_all
  then show ?case
    using p1 perm_in_trans by (auto simp: d1_def)
qed

lemma heap_pop_correct:
  assumes "heap_from f first 0 n d" and "n \<le> hi" and "first + hi \<le> length d"
    and "sorted_in f (first + n) (first + hi) d"
    and "\<forall>k l. k < n \<and> n \<le> l \<and> l < hi \<longrightarrow> f (d ! (first + k)) \<le> f (d ! (first + l))"
  shows "sorted_in f first (first + hi)
      (foldl (\<lambda>data i. siftDown_func (key_lt f) (Swap data first (first + i)) 0 i first) d
         (rev [0..<n]))
    \<and> perm_in first (first + hi) d
      (foldl (\<lambda>data i. siftDown_func (key_lt f) (Swap data first (first + i)) 0 i first) d
         (rev [0..<n]))"
  using assms
proof (induction n arbitrary: d)
  case 0
  then show ?case by simp
next
  case (Suc n)
  define d1 where "d1 = Swap d first (first + n)"
  define d2 where "d2 = siftDown_func (key_lt f) d1 0 n first"
  have len: "first < length d" "first + n < length d"
    using Suc.prems by simp_all
  have nth1: "d1 ! (first + k) = (if k = n then d ! first else if k = 0 then d ! (first + n)
      else d ! (first + k))" for k
    unfolding d1_def using len by (simp add: Swap_nth)
  have first1: "d1 ! first = (if n = 0 then d ! first else d ! (first + n))"
    using nth1 [of 0] by auto
  have p1: "perm_in first (first + hi) d d1"
    unfolding d1_def using Suc.prems by (intro perm_in_Swap) simp_all
  have l1: "length d1 = length d" by (simp add: d1_def)
  have "heap_except f first 0 n 0 d1"
    unfolding heap_except_def
  proof (intro conjI allI impI)
    fix r c assume h: "0 \<le> r \<and> r \<noteq> 0 \<and> c < n \<and> is_child c r"
    then have "c \<noteq> 0" "r \<noteq> n" "c \<noteq> n" "r \<noteq> 0" by (auto simp: is_child_def)
    then show "f (d1 ! (first + c)) \<le> f (d1 ! (first + r))"
      using Suc.prems(1) h by (simp add: nth1 heap_from_def)
  next
    fix p c assume "0 \<le> p \<and> is_child 0 p \<and> c < n \<and> is_child c 0"
    then show "f (d1 ! (first + c)) \<le> f (d1 ! (first + p))"
      by (simp add: is_child_def)
  qed
  then have s: "heap_from f first 0 n d2" "perm_in first (first + n) d1 d2"
    using siftDown_func_correct [of f first 0 n 0 d1] Suc.prems l1 by (simp_all add: d2_def)
  have p2: "perm_in first (first + hi) d1 d2"
    using s(2) Suc.prems(2) perm_in_mono [of first "first + n" d1 d2 first "first + hi"] by simp
  have l2: "length d2 = length d" using p2 l1 by (simp add: perm_in_def)
  have above: "d2 ! (first + l) = d1 ! (first + l)" if "n \<le> l" "l < hi" for l
    using s(2) that Suc.prems l1 by (intro perm_in_nth [of first "first + n"]) simp_all
  have top: "d2 ! (first + n) = d ! first"
    using above [of n] Suc.prems by (simp add: nth1)
  have rest: "d2 ! (first + l) = d ! (first + l)" if "Suc n \<le> l" "l < hi" for l
    using above [of l] that by (simp add: nth1)
  have bound: "all_in first (first + n) (\<lambda>x. f x \<le> z) d2"
    if "\<forall>k. k < Suc n \<longrightarrow> f (d ! (first + k)) \<le> z" for z
  proof -
    have "all_in first (first + n) (\<lambda>x. f x \<le> z) d1"
      unfolding all_in_def
    proof (intro allI impI)
      fix k assume k: "first \<le> k \<and> k < first + n"
      define k' where "k' = k - first"
      have k': "k = first + k'" "k' < n"
        using k by (simp_all add: k'_def) linarith
      show "f (d1 ! k) \<le> z"
        using that k' by (cases "k' = 0") (simp_all add: nth1 first1)
    qed
    note all1 = this
    show ?thesis
      by (rule perm_in_all_in [OF s(2)]) (use Suc.prems l1 all1 in simp_all)
  qed
  have below2: "\<forall>k l. k < n \<and> n \<le> l \<and> l < hi \<longrightarrow> f (d2 ! (first + k)) \<le> f (d2 ! (first + l))"
  proof (intro allI impI)
    fix k l assume h: "k < n \<and> n \<le> l \<and> l < hi"
    show "f (d2 ! (first + k)) \<le> f (d2 ! (first + l))"
    proof (cases "l = n")
      case True
      have "\<forall>k. k < Suc n \<longrightarrow> f (d ! (first + k)) \<le> f (d ! first)"
        using heap_root_max [OF Suc.prems(1)] by simp
      from bound [OF this] h show ?thesis
        by (simp add: all_in_def True top)
    next
      case False
      then have l: "Suc n \<le> l" using h by simp
      have "\<forall>k. k < Suc n \<longrightarrow> f (d ! (first + k)) \<le> f (d ! (first + l))"
        using Suc.prems(5) l h by simp
      from bound [OF this] h show ?thesis
        by (simp add: all_in_def rest l)
    qed
  qed
  have sorted2: "sorted_in f (first + n) (first + hi) d2"
    unfolding sorted_in_def
  proof (intro allI impI)
    fix i j assume h: "first + n \<le> i \<and> i < j \<and> j < first + hi"
    define i' j' where "i' = i - first" and "j' = j - first"
    have ij: "i = first + i'" "j = first + j'" "n \<le> i'" "i' < j'" "j' < hi"
      using h by (simp_all add: i'_def j'_def) linarith+
    show "f (d2 ! i) \<le> f (d2 ! j)"
    proof (cases "i' = n")
      case True
      have "0 < Suc n \<and> Suc n \<le> j' \<and> j' < hi"
        using ij True by simp
      then have "f (d ! (first + 0)) \<le> f (d ! (first + j'))"
        using Suc.prems(5) by blast
      then show ?thesis
        using ij True by (simp add: top rest)
    next
      case False
      then have "Suc n \<le> i'" using ij by simp
      then show ?thesis
        using Suc.prems(4) ij by (simp add: rest sorted_in_def)
    qed
  qed
  define res where
    "res = foldl (\<lambda>data i. siftDown_func (key_lt f) (Swap data first (first + i)) 0 i first) d2
         (rev [0..<n])"
  have "sorted_in f first (first + hi) res \<and> perm_in first (first + hi) d2 res"
    unfolding res_def using s(1) Suc.prems l2 sorted2 below2 by (intro Suc.IH) simp_all
  then have r: "sorted_in f first (first + hi) res" "perm_in first (first + hi) d2 res"
    by simp_all
  have "perm_in first (first + hi) d res"
    using perm_in_trans [OF p1 perm_in_trans [OF p2 r(2)]] .
  moreover have "foldl (\<lambda>data i. siftDown_func (key_lt f) (Swap data first (first + i)) 0 i first) d
         (rev [0..<Suc n]) = res"
    by (simp add: res_def d2_def d1_def)
  ultimately show ?case
    using r(1) by simp
qed

lemma heapSort_func_correct:
  assumes "a \<le> b" and "b \<le> length d"
  shows "sorted_in f a b (heapSort_func (key_lt f) d a b)
    \<and> perm_in a b d (heapSort_func (key_lt f) d a b)"
proof -
  define hi where "hi = b - a"
  define d1 where "d1 = foldl (\<lambda>data i. siftDown_func (key_lt f) data i hi a) d
      (rev [0..<(hi - 1) div 2 + 1])"
  have b: "a + hi = b" using assms by (simp add: hi_def)
  have "heap_from f a ((hi - 1) div 2 + 1) hi d"
    by (auto simp: heap_from_def is_child_def)
  then have h1: "heap_from f a 0 hi d1" "perm_in a (a + hi) d d1"
    using heap_build_correct [of f a "(hi - 1) div 2 + 1" hi d] assms b by (simp_all add: d1_def)
  have l1: "length d1 = length d" using h1(2) by (rule perm_in_length)
  have "sorted_in f a (a + hi)
      (foldl (\<lambda>data i. siftDown_func (key_lt f) (Swap data a (a + i)) 0 i a) d1 (rev [0..<hi]))
    \<and> perm_in a (a + hi) d1
      (foldl (\<lambda>data i. siftDown_func (key_lt f) (Swap data a (a + i)) 0 i a) d1 (rev [0..<hi]))"
    using h1(1) assms b l1 by (intro heap_pop_correct) auto
  then show ?thesis
    using h1(2) b perm_in_trans by (auto simp: heapSort_func_def Let_def hi_def d1_def)
qed

subsection \<open>The quicksort\<close>

lemma sorted_in_join:
  assumes "sorted_in f a m d" and "sorted_in f m b d"
    and "all_in a m (\<lambda>x. f x \<le> z) d" and "all_in m b (\<lambda>y. z \<le> f y) d"
  shows "sorted_in f a b d"
  unfolding sorted_in_def
proof (intro allI impI)
  fix i j assume h: "a \<le> i \<and> i < j \<and> j < b"
  consider "j < m" | "m \<le> i" | "i < m" "m \<le> j" by linarith
  then show "f (d ! i) \<le> f (d ! j)"
  proof cases
    case 1
    then show ?thesis using assms(1) h by (simp add: sorted_in_def)
  next
    case 2
    then show ?thesis using assms(2) h by (simp add: sorted_in_def)
  next
    case 3
    then have "f (d ! i) \<le> z" "z \<le> f (d ! j)"
      using assms(3,4) h by (simp_all add: all_in_def)
    then show ?thesis by simp
  qed
qed

lemma sorted_in_perm_below:
  assumes "sorted_in f m b d" and "perm_in a m d d'" and "b \<le> length d"
  shows "sorted_in f m b d'"
proof -
  have "d' ! k = d ! k" if "m \<le> k" "k < b" for k
    using assms(2,3) that by (intro perm_in_nth [of a m]) simp_all
  then show ?thesis
    using assms(1) by (simp add: sorted_in_def)
qed

lemma all_in_perm_outside:
  assumes "all_in a b P d" and "perm_in a' b' d d'" and "b \<le> a' \<or> b' \<le> a" and "b \<le> length d"
  shows "all_in a b P d'"
proof -
  have "d' ! k = d ! k" if "a \<le> k" "k < b" for k
    using assms(2-4) that by (intro perm_in_nth [of a' b']) auto
  then show ?thesis
    using assms(1) by (simp add: all_in_def)
qed

lemma all_in_mono: "all_in a b P d \<Longrightarrow> (\<And>x. P x \<Longrightarrow> Q x) \<Longrightarrow> all_in a b Q d"
  by (simp add: all_in_def)

lemma pdqsort_iter_unfold:
  assumes "d1 = (if wb then d else breakPatterns_func d a b)"
    and "limit1 = (if wb then limit else limit - 1)"
    and "choosePivot_func lt d1 a b = (pivot0, hint0)"
    and "d2 = (if hint0 = decreasingHint then reverseRange_func d1 a b else d1)"
    and "pivot = (if hint0 = decreasingHint then (b - 1) - (pivot0 - a) else pivot0)"
    and "hint = (if hint0 = decreasingHint then increasingHint else hint0)"
    and "partialInsertionSort_func lt d2 a b = (d3', ok')"
    and "run = (wb \<and> wp \<and> hint = increasingHint)"
    and "d3 = (if run then d3' else d2)"
    and "ok = (run \<and> ok')"
  shows "pdqsort_iter lt d a b limit wb wp =
      (if ok then Sorted d3
       else if a > 0 \<and> \<not> Less lt d3 (a - 1) pivot then
         (case partitionEqual_func lt d3 a b pivot of
            (d4, mid) \<Rightarrow> EqualPart d4 limit1 mid)
       else
         (case partition_func lt d3 a b pivot of
            (d4, mid, ap) \<Rightarrow> Part d4 limit1 mid ap))"
  using assms
  by (cases wb; cases "hint0 = decreasingHint"; cases wp; cases ok'; cases "a = 0"; hypsubst)
    (simp_all add: pdqsort_iter_def Let_def)

lemma pdqsort_iter_cases:
  assumes "12 < b - a" and "b \<le> length d" and "guarded f a b d"
  obtains d3 pivot ok limit' where
    "perm_in a b d d3" and "a \<le> pivot" and "pivot < b" and "ok \<longrightarrow> sorted_in f a b d3"
    and "pdqsort_iter (key_lt f) d a b limit wb wp =
      (if ok then Sorted d3
       else if a > 0 \<and> \<not> f (d3 ! (a - 1)) < f (d3 ! pivot) then
         (case partitionEqual_func (key_lt f) d3 a b pivot of
            (d4, mid) \<Rightarrow> EqualPart d4 limit' mid)
       else
         (case partition_func (key_lt f) d3 a b pivot of
            (d4, mid, ap) \<Rightarrow> Part d4 limit' mid ap))"
proof -
  have ab: "a < b" "a \<le> b" using assms(1) by simp_all
  define d1 where "d1 = (if \<not> wb then breakPatterns_func d a b else d)"
  define limit1 where "limit1 = (if \<not> wb then limit - 1 else limit)"
  have p1: "perm_in a b d d1"
    using breakPatterns_func_perm [OF ab(2) assms(2)] by (simp add: d1_def)
  have l1: "length d1 = length d" using p1 by (rule perm_in_length)
  obtain pivot0 hint0 where cp: "choosePivot_func (key_lt f) d1 a b = (pivot0, hint0)"
    by (metis surj_pair)
  have r0: "a \<le> pivot0 \<and> pivot0 < b"
    using choosePivot_func_range [OF cp assms(1)] .
  define d2 where "d2 = (if hint0 = decreasingHint then reverseRange_func d1 a b else d1)"
  define pivot where "pivot = (if hint0 = decreasingHint then (b - 1) - (pivot0 - a) else pivot0)"
  define hint where "hint = (if hint0 = decreasingHint then increasingHint else hint0)"
  have p2: "perm_in a b d1 d2"
    using reverseRange_func_perm [of a b d1] ab assms(2) l1 by (simp add: d2_def)
  have r: "a \<le> pivot" "pivot < b"
    using r0 ab by (auto simp: pivot_def)
  have p12: "perm_in a b d d2"
    using perm_in_trans [OF p1 p2] .
  have l2: "length d2 = length d" using p12 by (rule perm_in_length)
  have g2: "guarded f a b d2"
    by (rule guarded_perm [OF assms(3) p12 ab(2) assms(2)])
  define run where "run \<longleftrightarrow> wb \<and> wp \<and> hint = increasingHint"
  obtain d3' ok' where pi: "partialInsertionSort_func (key_lt f) d2 a b = (d3', ok')"
    by (metis surj_pair)
  define d3 where "d3 = (if run then d3' else d2)"
  define ok where "ok \<longleftrightarrow> run \<and> ok'"
  have c3: "perm_in a b d2 d3' \<and> (ok' \<longrightarrow> sorted_in f a b d3')"
    using partialInsertionSort_func_correct [OF pi ab(1) _ g2] assms(2) l2 by simp
  have p3: "perm_in a b d2 d3"
    using c3 by (simp add: d3_def)
  have s3: "ok \<longrightarrow> sorted_in f a b d3"
    using c3 by (simp add: d3_def ok_def)
  have p: "perm_in a b d d3"
    using perm_in_trans [OF p12 p3] .
  have "pdqsort_iter (key_lt f) d a b limit wb wp =
      (if ok then Sorted d3
       else if a > 0 \<and> \<not> Less (key_lt f) d3 (a - 1) pivot then
         (case partitionEqual_func (key_lt f) d3 a b pivot of
            (d4, mid) \<Rightarrow> EqualPart d4 limit1 mid)
       else
         (case partition_func (key_lt f) d3 a b pivot of
            (d4, mid, ap) \<Rightarrow> Part d4 limit1 mid ap))"
    by (rule pdqsort_iter_unfold [OF _ _ cp d2_def pivot_def hint_def pi _ d3_def])
      (simp_all add: d1_def limit1_def run_def ok_def)
  then have "pdqsort_iter (key_lt f) d a b limit wb wp =
      (if ok then Sorted d3
       else if a > 0 \<and> \<not> f (d3 ! (a - 1)) < f (d3 ! pivot) then
         (case partitionEqual_func (key_lt f) d3 a b pivot of
            (d4, mid) \<Rightarrow> EqualPart d4 limit1 mid)
       else
         (case partition_func (key_lt f) d3 a b pivot of
            (d4, mid, ap) \<Rightarrow> Part d4 limit1 mid ap))"
    by (simp add: Less_def key_lt_def)
  with p r s3 show ?thesis
    by (rule that)
qed

lemma guarded_perm_outside:
  assumes "guarded f a m d" and "perm_in a' b' d d'" and "m \<le> a'" and "m \<le> length d" and "a \<le> m"
  shows "guarded f a m d'"
proof (cases "a = 0")
  case True
  then show ?thesis by (simp add: guarded_def)
next
  case False
  then have g: "all_in a m (\<lambda>x. \<not> f x < f (d ! (a - 1))) d"
    using assms(1) by (simp add: guarded_def)
  have "d' ! (a - 1) = d ! (a - 1)"
    by (rule perm_in_nth [OF assms(2)]) (use assms False in auto)
  moreover have "all_in a m (\<lambda>x. \<not> f x < f (d ! (a - 1))) d'"
    by (rule all_in_perm_outside [OF g assms(2)]) (use assms in simp_all)
  ultimately show ?thesis by (simp add: guarded_def)
qed

lemma partitioned_left:
  assumes "partitioned f a mid b d" and "perm_in a mid d d'" and "a \<le> mid" and "mid < b"
    and "b \<le> length d"
  shows "partitioned f a mid b d'"
proof -
  have m: "d' ! mid = d ! mid"
    by (rule perm_in_nth [OF assms(2)]) (use assms in simp_all)
  have "all_in a mid (\<lambda>x. f x < f (d ! mid)) d'"
    by (rule perm_in_all_in [OF assms(2)]) (use assms in \<open>simp_all add: partitioned_def\<close>)
  moreover have "all_in (Suc mid) b (\<lambda>x. \<not> f x < f (d ! mid)) d'"
    by (rule all_in_perm_outside [OF _ assms(2)]) (use assms in \<open>simp_all add: partitioned_def\<close>)
  ultimately show ?thesis by (simp add: partitioned_def m)
qed

lemma partitioned_right:
  assumes "partitioned f a mid b d" and "perm_in (Suc mid) b d d'" and "a \<le> mid" and "mid < b"
    and "b \<le> length d"
  shows "partitioned f a mid b d'"
proof -
  have m: "d' ! mid = d ! mid"
    by (rule perm_in_nth [OF assms(2)]) (use assms in simp_all)
  have "all_in a mid (\<lambda>x. f x < f (d ! mid)) d'"
    by (rule all_in_perm_outside [OF _ assms(2)]) (use assms in \<open>simp_all add: partitioned_def\<close>)
  moreover have "all_in (Suc mid) b (\<lambda>x. \<not> f x < f (d ! mid)) d'"
    by (rule perm_in_all_in [OF assms(2)]) (use assms in \<open>simp_all add: partitioned_def\<close>)
  ultimately show ?thesis by (simp add: partitioned_def m)
qed

lemma sorted_in_pivot:
  assumes "partitioned f a m b d" and "sorted_in f a m d" and "sorted_in f (Suc m) b d"
  shows "sorted_in f a b d"
  unfolding sorted_in_def
proof (intro allI impI)
  fix i j assume h: "a \<le> i \<and> i < j \<and> j < b"
  have lo: "f (d ! k) < f (d ! m)" if "a \<le> k" "k < m" for k
    using assms(1) that by (simp add: partitioned_def all_in_def)
  have hi: "f (d ! m) \<le> f (d ! k)" if "m < k" "k < b" for k
    using assms(1) that by (simp add: partitioned_def all_in_def not_less)
  consider "j < m" | "j = m" | "i = m" | "m < i" | "i < m" "m < j" by linarith
  then show "f (d ! i) \<le> f (d ! j)"
  proof cases
    case 1
    then show ?thesis using assms(2) h by (simp add: sorted_in_def)
  next
    case 2
    then show ?thesis using lo [of i] h by simp
  next
    case 3
    then show ?thesis using hi [of j] h by simp
  next
    case 4
    then show ?thesis using assms(3) h by (simp add: sorted_in_def)
  next
    case 5
    then have "f (d ! i) < f (d ! m)" "f (d ! m) \<le> f (d ! j)"
      using lo [of i] hi [of j] h by simp_all
    then show ?thesis by simp
  qed
qed

lemma pdqsort_func_correct:
  assumes "a \<le> b" and "b \<le> length d" and "guarded f a b d"
  shows "sorted_in f a b (pdqsort_func (key_lt f) d a b limit wb wp)
    \<and> perm_in a b d (pdqsort_func (key_lt f) d a b limit wb wp)"
  using assms
proof (induction "b - a" arbitrary: d a b limit wb wp rule: less_induct)
  case less
  note IH = less.hyps and ab = less.prems(1) and len = less.prems(2) and g = less.prems(3)
  show ?case
  proof (cases "b - a \<le> 12")
    case True
    then have "pdqsort_func (key_lt f) d a b limit wb wp = insertionSort_func (key_lt f) d a b"
      by (subst pdqsort_func.simps) simp
    then show ?thesis
      using insertionSort_func_sorts [OF ab len, of f] by simp
  next
    case big: False
    show ?thesis
    proof (cases "limit = 0")
      case True
      then have "pdqsort_func (key_lt f) d a b limit wb wp = heapSort_func (key_lt f) d a b"
        using big by (subst pdqsort_func.simps) simp
      then show ?thesis
        using heapSort_func_correct [OF ab len, of f] by simp
    next
      case lim: False
      have big': "12 < b - a" using big by simp
      obtain d3 pivot ok limit' where
        p3: "perm_in a b d d3" and r: "a \<le> pivot" "pivot < b"
        and s3: "ok \<longrightarrow> sorted_in f a b d3"
        and it: "pdqsort_iter (key_lt f) d a b limit wb wp =
          (if ok then Sorted d3
           else if a > 0 \<and> \<not> f (d3 ! (a - 1)) < f (d3 ! pivot) then
             (case partitionEqual_func (key_lt f) d3 a b pivot of
                (d4, mid) \<Rightarrow> EqualPart d4 limit' mid)
           else
             (case partition_func (key_lt f) d3 a b pivot of
                (d4, mid, ap) \<Rightarrow> Part d4 limit' mid ap))"
        by (rule pdqsort_iter_cases [OF big' len g, where limit = limit and wb = wb and wp = wp])
      have l3: "length d3 = length d" using p3 by (rule perm_in_length)
      have len3: "b \<le> length d3" using len l3 by simp
      have g3: "guarded f a b d3" by (rule guarded_perm [OF g p3 ab len])
      show ?thesis
      proof (cases ok)
        case True
        then have "pdqsort_iter (key_lt f) d a b limit wb wp = Sorted d3"
          using it by simp
        then have "pdqsort_func (key_lt f) d a b limit wb wp = d3"
          using big lim by (subst pdqsort_func.simps) simp
        then show ?thesis using s3 p3 True by simp
      next
        case nok: False
        show ?thesis
        proof (cases "a > 0 \<and> \<not> f (d3 ! (a - 1)) < f (d3 ! pivot)")
          case eq: True
          obtain d4 mid where pe: "partitionEqual_func (key_lt f) d3 a b pivot = (d4, mid)"
            by (cases "partitionEqual_func (key_lt f) d3 a b pivot") auto
          have c: "perm_in a b d3 d4" "a < mid" "mid \<le> b"
            "all_in a mid (\<lambda>x. \<not> f (d3 ! pivot) < f x) d4"
            "all_in mid b (\<lambda>x. f (d3 ! pivot) < f x) d4"
            using partitionEqual_func_correct [OF pe r len3] by simp_all
          have it': "pdqsort_iter (key_lt f) d a b limit wb wp = EqualPart d4 limit' mid"
            using it nok eq pe by simp
          define res where "res = pdqsort_func (key_lt f) d4 mid b limit' wb wp"
          have un: "pdqsort_func (key_lt f) d a b limit wb wp = res"
            using big lim it' by (subst pdqsort_func.simps) (simp add: res_def)
          have l4: "length d4 = length d" using c(1) l3 by (simp add: perm_in_length)
          have len4: "b \<le> length d4" using len l4 by simp
          have g4: "guarded f a b d4" by (rule guarded_perm [OF g3 c(1) ab len3])
          have eqk: "all_in a mid (\<lambda>x. f x = f (d3 ! pivot)) d4"
            unfolding all_in_def
          proof (intro allI impI)
            fix k assume k: "a \<le> k \<and> k < mid"
            have "d4 ! (a - 1) = d3 ! (a - 1)"
              by (rule perm_in_nth [OF c(1)]) (use eq len3 ab in auto)
            then have "all_in a b (\<lambda>x. \<not> f x < f (d3 ! (a - 1))) d4"
              using g4 eq by (simp add: guarded_def)
            then have "\<not> f (d4 ! k) < f (d3 ! (a - 1))"
              using k c(3) by (simp add: all_in_def)
            moreover have "\<not> f (d3 ! pivot) < f (d4 ! k)"
              using k c(4) by (simp add: all_in_def)
            ultimately show "f (d4 ! k) = f (d3 ! pivot)"
              using eq by auto
          qed
          have gm: "guarded f mid b d4"
          proof -
            have "f (d4 ! (mid - 1)) = f (d3 ! pivot)"
              using eqk c(2) by (simp add: all_in_def)
            then show ?thesis
              using c(5) by (simp add: guarded_def all_in_def not_less less_imp_le)
          qed
          have ih: "sorted_in f mid b res \<and> perm_in mid b d4 res"
            unfolding res_def by (rule IH) (use c len4 gm big' in simp_all)
          note ihs = conjunct1 [OF ih] and ihp = conjunct2 [OF ih]
          have "sorted_in f a mid d4"
            using eqk by (simp add: sorted_in_def all_in_def)
          then have sl: "sorted_in f a mid res"
            by (rule sorted_in_perm_above [OF _ ihp]) (use c len4 in simp_all)
          have "all_in a mid (\<lambda>x. f x = f (d3 ! pivot)) res"
            by (rule all_in_perm_outside [OF eqk ihp]) (use c len4 in simp_all)
          then have al: "all_in a mid (\<lambda>x. f x \<le> f (d3 ! pivot)) res"
            by (rule all_in_mono) simp
          have "all_in mid b (\<lambda>x. f (d3 ! pivot) < f x) res"
            by (rule perm_in_all_in [OF ihp c(3) len4 c(5)])
          then have ar: "all_in mid b (\<lambda>x. f (d3 ! pivot) \<le> f x) res"
            by (rule all_in_mono) simp
          have s: "sorted_in f a b res"
            by (rule sorted_in_join [OF sl ihs al ar])
          have "perm_in a b d4 res"
            by (rule perm_in_mono [OF ihp]) (use c in simp_all)
          then have "perm_in a b d res"
            using p3 c(1) by (blast intro: perm_in_trans)
          then show ?thesis using s un by simp
        next
          case neq: False
          obtain d4 mid ap where pf: "partition_func (key_lt f) d3 a b pivot = (d4, mid, ap)"
            by (cases "partition_func (key_lt f) d3 a b pivot") auto
          have c: "perm_in a b d3 d4" "a \<le> mid" "mid < b" "partitioned f a mid b d4"
            using partition_func_correct [OF pf r len3] by (simp_all add: partitioned_def)
          have it': "pdqsort_iter (key_lt f) d a b limit wb wp = Part d4 limit' mid ap"
            by (simp only: it nok neq pf if_False prod.case)
          have l4: "length d4 = length d" using c(1) l3 by (simp add: perm_in_length)
          have len4: "b \<le> length d4" using len l4 by simp
          have g4: "guarded f a b d4" by (rule guarded_perm [OF g3 c(1) ab len3])
          have ga: "guarded f a mid d4"
            by (rule guarded_mono [OF g4]) (use c in simp)
          have p4: "perm_in a b d d4"
            using p3 c(1) by (rule perm_in_trans)
          show ?thesis
          proof (cases "mid - a < b - mid")
            case True
            define r1 where "r1 = pdqsort_func (key_lt f) d4 a mid limit' True True"
            define r2 where "r2 = pdqsort_func (key_lt f) r1 (Suc mid) b limit'
              ((b - a) div 8 \<le> mid - a) ap"
            have un: "pdqsort_func (key_lt f) d a b limit wb wp = r2"
              using big lim it' True
              by (subst pdqsort_func.simps) (simp add: Let_def r1_def r2_def)
            have ih1: "sorted_in f a mid r1 \<and> perm_in a mid d4 r1"
              unfolding r1_def by (rule IH) (use c len4 ga in simp_all)
            note ih1s = conjunct1 [OF ih1] and ih1p = conjunct2 [OF ih1]
            have l1: "b \<le> length r1" using perm_in_length [OF ih1p] len4 by simp
            have q1: "partitioned f a mid b r1"
              by (rule partitioned_left [OF c(4) ih1p c(2,3) len4])
            have gb: "guarded f (Suc mid) b r1"
              using q1 by (simp add: guarded_def partitioned_def)
            have ih2: "sorted_in f (Suc mid) b r2 \<and> perm_in (Suc mid) b r1 r2"
              unfolding r2_def by (rule IH) (use c l1 gb in simp_all)
            note ih2s = conjunct1 [OF ih2] and ih2p = conjunct2 [OF ih2]
            have q2: "partitioned f a mid b r2"
              by (rule partitioned_right [OF q1 ih2p c(2,3) l1])
            have pm: "perm_in mid b r1 r2"
              by (rule perm_in_mono [OF ih2p]) simp_all
            have s1: "sorted_in f a mid r2"
              by (rule sorted_in_perm_above [OF ih1s pm]) (use l1 c in simp_all)
            have s: "sorted_in f a b r2"
              by (rule sorted_in_pivot [OF q2 s1 ih2s])
            have "perm_in a b d4 r1"
              by (rule perm_in_mono [OF ih1p]) (use c in simp_all)
            moreover have "perm_in a b r1 r2"
              by (rule perm_in_mono [OF ih2p]) (use c in simp_all)
            ultimately have "perm_in a b d r2"
              using p4 by (blast intro: perm_in_trans)
            then show ?thesis using s un by simp
          next
            case False
            define r1 where "r1 = pdqsort_func (key_lt f) d4 (Suc mid) b limit' True True"
            define r2 where "r2 = pdqsort_func (key_lt f) r1 a mid limit'
              ((b - a) div 8 \<le> b - mid) ap"
            have un: "pdqsort_func (key_lt f) d a b limit wb wp = r2"
              using big lim it' False
              by (subst pdqsort_func.simps) (simp add: Let_def r1_def r2_def)
            have gb: "guarded f (Suc mid) b d4"
              using c(4) by (simp add: guarded_def partitioned_def)
            have ih1: "sorted_in f (Suc mid) b r1 \<and> perm_in (Suc mid) b d4 r1"
              unfolding r1_def by (rule IH) (use c len4 gb in simp_all)
            note ih1s = conjunct1 [OF ih1] and ih1p = conjunct2 [OF ih1]
            have l1: "b \<le> length r1" using perm_in_length [OF ih1p] len4 by simp
            have q1: "partitioned f a mid b r1"
              by (rule partitioned_right [OF c(4) ih1p c(2,3) len4])
            have ga1: "guarded f a mid r1"
              by (rule guarded_perm_outside [OF ga ih1p]) (use c len4 in simp_all)
            have ih2: "sorted_in f a mid r2 \<and> perm_in a mid r1 r2"
              unfolding r2_def by (rule IH) (use c l1 ga1 in simp_all)
            note ih2s = conjunct1 [OF ih2] and ih2p = conjunct2 [OF ih2]
            have q2: "partitioned f a mid b r2"
              by (rule partitioned_left [OF q1 ih2p c(2,3) l1])
            have pm: "perm_in a (Suc mid) r1 r2"
              by (rule perm_in_mono [OF ih2p]) simp_all
            have s1: "sorted_in f (Suc mid) b r2"
              by (rule sorted_in_perm_below [OF ih1s pm l1])
            have s: "sorted_in f a b r2"
              by (rule sorted_in_pivot [OF q2 ih2s s1])
            have "perm_in a b d4 r1"
              by (rule perm_in_mono [OF ih1p]) (use c in simp_all)
            moreover have "perm_in a b r1 r2"
              by (rule perm_in_mono [OF ih2p]) (use c in simp_all)
            ultimately have "perm_in a b d r2"
              using p4 by (blast intro: perm_in_trans)
            then show ?thesis using s un by simp
          qed
        qed
      qed
    qed
  qed
qed

lemma sort_Slice_correct:
  "sorted (map f (sort_Slice (key_lt f) xs)) \<and> mset (sort_Slice (key_lt f) xs) = mset xs"
proof -
  define ys where "ys = sort_Slice (key_lt f) xs"
  have "sorted_in f 0 (length xs) ys \<and> perm_in 0 (length xs) xs ys"
    unfolding ys_def sort_Slice_def Let_def
    by (rule pdqsort_func_correct) (simp_all add: guarded_def)
  then have s: "sorted_in f 0 (length ys) ys" and m: "mset ys = mset xs"
    by (simp_all add: perm_in_def)
  have "sorted (map f ys)"
    using s by (simp add: sorted_iff_nth_mono_less sorted_in_def)
  then show ?thesis using m by (simp add: ys_def)
qed

end
